theory Spec2Isabelle
  imports Main
begin

section \<open>Data model\<close>

text \<open>
  The event record of \<^verbatim>\<open>dashboard-events.ts\<close>. The payload \<open>data\<close> has the
  TypeScript type \<^verbatim>\<open>unknown\<close>; it is a type parameter here, so that the emitter
  cannot inspect it.
\<close>

datatype event_type =
  container_spawn | container_complete | agent_event | message_received | message_sent

record 'd DashboardEvent =
  type :: event_type
  timestamp :: string
  groupFolder :: "string option"
  chatJid :: "string option"
  data :: 'd

text \<open>
  Objects are referred to by reference. Arrays of events live in a heap indexed by
  references; sockets and listener closures have references of their own.
\<close>

type_synonym ref = nat

datatype readyState = CONNECTING | OPEN | CLOSING | CLOSED

text \<open>
  The two frames of the live feed, \<^verbatim>\<open>{type: 'history', events}\<close> and
  \<^verbatim>\<open>{type: 'event', event}\<close>, in structured form.
\<close>

datatype 'd message =
  history_msg "'d DashboardEvent list"
  | event_msg "'d DashboardEvent"

datatype error = Thrown string

text \<open>
  \<^verbatim>\<open>JSON.stringify\<close> returns a string for a frame unless the payload of one of its
  events cannot be serialised (a \<^verbatim>\<open>BigInt\<close>, a circular structure, a \<^verbatim>\<open>toJSON\<close>
  that throws), and then it throws. Which payloads it accepts is the parameter
  \<open>accepts\<close>; the other fields of an event are strings. The string of an accepted frame
  is taken to determine the frame, so the frame itself stands for it.
\<close>

definition stringify :: "('d \<Rightarrow> bool) \<Rightarrow> 'd message \<Rightarrow> error + 'd message" where
  "stringify accepts m =
     (if (case m of history_msg es \<Rightarrow> list_all (\<lambda>e. accepts (data e)) es
                  | event_msg e \<Rightarrow> accepts (data e))
      then Inr m else Inl (Thrown ''TypeError''))"

text \<open>
  A socket of the \<^verbatim>\<open>ws\<close> library as far as the server uses it: its \<open>readyState\<close>, the
  arguments of the calls made to \<^verbatim>\<open>ws.send\<close> (oldest first), the listeners of its
  \<^verbatim>\<open>'close'\<close> event, and the sequence \<open>ops\<close> of what the server did with the socket:
  reading \<open>readyState\<close> (with the value read) and calling \<^verbatim>\<open>send\<close>. The only close
  listener the server installs is the closure
  \<^verbatim>\<open>() => dashboardEvents.off('dashboard', handler)\<close>, which is represented by the
  reference of the \<open>handler\<close> it captured.
\<close>

datatype 'd socket_op = ReadyStateRead readyState | SendCall "'d message"

record 'd WebSocket =
  readyState :: readyState
  sent :: "'d message list"
  ops :: "'d socket_op list"
  closeListeners :: "ref list"

text \<open>
  A listener of the \<^verbatim>\<open>'dashboard'\<close> event is a function object: \<open>fn_ref\<close> is its
  identity (what \<^verbatim>\<open>===\<close> compares), \<open>call\<close> is its effect on the sockets when it is
  applied to an event, with the exception it throws, if any.
\<close>

record 'd listener =
  fn_ref :: ref
  call :: "'d DashboardEvent \<Rightarrow> (ref \<Rightarrow> 'd WebSocket) \<Rightarrow> (ref \<Rightarrow> 'd WebSocket) \<times> error option"

text \<open>
  The state of the process. An array slot holds a reference to an event object: for the
  array at reference \<open>r\<close>, \<open>ids s r\<close> lists the identities of the objects in its slots
  and \<open>heap s r\<close> their current contents, slot by slot. \<open>nextRef\<close> and \<open>nextObj\<close> are
  the allocation pointers of arrays and closures and of event objects. Then come the
  fields of the singleton \<^verbatim>\<open>dashboardEvents\<close> (\<open>recentEvents\<close> is a reference to an
  array, \<open>listeners\<close> is the listener array that the inherited \<^verbatim>\<open>EventEmitter\<close> keeps
  for \<^verbatim>\<open>'dashboard'\<close>), the sockets, and a trace of the listener invocations made so far.
\<close>

record 'd state =
  heap :: "ref \<Rightarrow> 'd DashboardEvent list"
  ids :: "ref \<Rightarrow> nat list"
  nextRef :: ref
  nextObj :: nat
  recentEvents :: ref
  maxEvents :: nat
  listeners :: "'d listener list"
  sockets :: "ref \<Rightarrow> 'd WebSocket"
  invoked :: "(ref \<times> 'd DashboardEvent) list"

text \<open>
  \<^verbatim>\<open>export const dashboardEvents = new DashboardEventEmitter()\<close>: the field
  initialisers allocate the empty array and set the capacity to 100. No socket exists yet;
  the entries of \<open>sockets\<close> are placeholders until the library hands a socket over.
\<close>

definition dashboardEvents :: "'d state" where
  "dashboardEvents =
     \<lparr>heap = (\<lambda>_. []), ids = (\<lambda>_. []), nextRef = 1, nextObj = 0, recentEvents = 0,
      maxEvents = 100, listeners = [],
      sockets = (\<lambda>_. \<lparr>readyState = CLOSED, sent = [], ops = [], closeListeners = []\<rparr>),
      invoked = []\<rparr>"

section \<open>Array and EventEmitter primitives\<close>

text \<open>
  \<^verbatim>\<open>Array.prototype.push\<close> of the object \<open>k\<close>, whose contents are \<open>e\<close>, and
  \<^verbatim>\<open>shift\<close>, on the array at a reference.
\<close>

definition push :: "ref \<Rightarrow> nat \<Rightarrow> 'd DashboardEvent \<Rightarrow> 'd state \<Rightarrow> 'd state" where
  "push r k e s = s\<lparr>heap := (heap s)(r := heap s r @ [e]), ids := (ids s)(r := ids s r @ [k])\<rparr>"

definition shift :: "ref \<Rightarrow> 'd state \<Rightarrow> 'd state" where
  "shift r s =
     (case heap s r of [] \<Rightarrow> s
      | x # xs \<Rightarrow> s\<lparr>heap := (heap s)(r := xs), ids := (ids s)(r := tl (ids s r))\<rparr>)"

text \<open>
  \<^verbatim>\<open>emitter.emit('dashboard', event)\<close> of Node's \<^verbatim>\<open>events\<close> module: the listeners
  are called synchronously in the order of registration; an exception thrown by a listener
  is not caught, so it ends the loop and reaches the caller of \<open>emit\<close>.
\<close>

fun emit :: "'d listener list \<Rightarrow> 'd DashboardEvent \<Rightarrow> 'd state \<Rightarrow> 'd state \<times> error option" where
  "emit [] e s = (s, None)"
| "emit (l # ls) e s =
     (let r = call l e (sockets s);
          s' = s\<lparr>sockets := fst r, invoked := invoked s @ [(fn_ref l, e)]\<rparr>
      in case snd r of Some x \<Rightarrow> (s', Some x) | None \<Rightarrow> emit ls e s')"

declare emit.simps(2) [simp del]

text \<open>\<^verbatim>\<open>emitter.on('dashboard', listener)\<close> appends, without looking for duplicates.\<close>

definition on :: "'d listener \<Rightarrow> 'd state \<Rightarrow> 'd state" where
  "on l s = s\<lparr>listeners := listeners s @ [l]\<rparr>"

text \<open>
  \<^verbatim>\<open>emitter.off('dashboard', listener)\<close> removes the most recently added registration
  of that function object, and does nothing when there is none.
\<close>

fun removeListener :: "ref \<Rightarrow> 'd listener list \<Rightarrow> 'd listener list" where
  "removeListener h [] = []"
| "removeListener h (l # ls) =
     (if h \<in> set (map fn_ref ls) then l # removeListener h ls
      else if fn_ref l = h then ls else l # ls)"

definition off :: "ref \<Rightarrow> 'd state \<Rightarrow> 'd state" where
  "off h s = s\<lparr>listeners := removeListener h (listeners s)\<rparr>"

section \<open>DashboardEventEmitter\<close>

text \<open>
  The argument of \<open>emitDashboard\<close> is an event object. It is taken to be an object
  the producer has built for this call, so it gets the next identity; publishing one
  object twice, which would put it into two slots, is not modelled.
\<close>

definition emitDashboard :: "'d DashboardEvent \<Rightarrow> 'd state \<Rightarrow> 'd state \<times> error option" where
  "emitDashboard e s =
     (let k = nextObj s;
          s0 = s\<lparr>nextObj := Suc k\<rparr>;
          s1 = push (recentEvents s0) k e s0;
          s2 = (if length (heap s1 (recentEvents s1)) > maxEvents s1
                then shift (recentEvents s1) s1 else s1)
      in emit (listeners s2) e s2)"

text \<open>
  \<^verbatim>\<open>[...this.recentEvents]\<close> allocates a new array whose slots hold the same event
  objects; the result is its reference.
\<close>

definition getRecentEvents :: "'d state \<Rightarrow> ref \<times> 'd state" where
  "getRecentEvents s =
     (nextRef s, s\<lparr>heap := (heap s)(nextRef s := heap s (recentEvents s)),
                   ids := (ids s)(nextRef s := ids s (recentEvents s)),
                   nextRef := Suc (nextRef s)\<rparr>)"

section \<open>Dashboard server\<close>

definition ws_send :: "'d message \<Rightarrow> 'd WebSocket \<Rightarrow> 'd WebSocket" where
  "ws_send m ws = ws\<lparr>sent := sent ws @ [m], ops := ops ws @ [SendCall m]\<rparr>"

definition ws_readyState :: "'d WebSocket \<Rightarrow> readyState \<times> 'd WebSocket" where
  "ws_readyState ws = (readyState ws, ws\<lparr>ops := ops ws @ [ReadyStateRead (readyState ws)]\<rparr>)"

text \<open>
  The closure \<open>handler\<close> of the connection callback, for the socket \<open>ws\<close>: the test of
  \<open>readyState\<close>, then \<^verbatim>\<open>JSON.stringify\<close> of the event frame, then \<^verbatim>\<open>ws.send\<close>.
\<close>

definition handler ::
  "('d \<Rightarrow> bool) \<Rightarrow> ref \<Rightarrow> 'd DashboardEvent \<Rightarrow> (ref \<Rightarrow> 'd WebSocket)
     \<Rightarrow> (ref \<Rightarrow> 'd WebSocket) \<times> error option" where
  "handler accepts ws e w =
     (let (st, sock) = ws_readyState (w ws);
          w1 = w(ws := sock)
      in if st = OPEN
         then (case stringify accepts (event_msg e) of
                 Inl x \<Rightarrow> (w1, Some x)
               | Inr m \<Rightarrow> (w1(ws := ws_send m sock), None))
         else (w1, None))"

text \<open>
  The callback of \<^verbatim>\<open>wss.on('connection', ...)\<close>. It runs to completion without
  yielding to the event loop, so it is one function of the state. When
  \<^verbatim>\<open>JSON.stringify\<close> of the history frame throws, the callback ends there: nothing is
  sent and no handler is registered.
\<close>

definition connection :: "('d \<Rightarrow> bool) \<Rightarrow> ref \<Rightarrow> 'd state \<Rightarrow> 'd state \<times> error option" where
  "connection accepts ws s =
     (let (recent, s1) = getRecentEvents s
      in case stringify accepts (history_msg (heap s1 recent)) of
           Inl x \<Rightarrow> (s1, Some x)
         | Inr m \<Rightarrow>
             (let s2 = s1\<lparr>sockets := (sockets s1)(ws := ws_send m (sockets s1 ws))\<rparr>;
                  h = nextRef s2;
                  s3 = s2\<lparr>nextRef := Suc h\<rparr>;
                  s4 = on \<lparr>fn_ref = h, call = handler accepts ws\<rparr> s3
              in (s4\<lparr>sockets := (sockets s4)
                     (ws := (sockets s4 ws)\<lparr>closeListeners := closeListeners (sockets s4 ws) @ [h]\<rparr>)\<rparr>,
                  None)))"

text \<open>
  The \<^verbatim>\<open>'close'\<close> event of a socket: the library has set \<open>readyState\<close> to
  \<open>CLOSED\<close> when it calls the close listeners, each of which unsubscribes its handler.
\<close>

definition close :: "ref \<Rightarrow> 'd state \<Rightarrow> 'd state" where
  "close ws s =
     (let s1 = s\<lparr>sockets := (sockets s)(ws := (sockets s ws)\<lparr>readyState := CLOSED\<rparr>)\<rparr>
      in fold off (closeListeners (sockets s1 ws)) s1)"

section \<open>Runs\<close>

text \<open>
  The producer's side of a sequence of publishes: each call is made on the state the
  previous one left, whether it returned or threw.
\<close>

definition publish_all :: "'d DashboardEvent list \<Rightarrow> 'd state \<Rightarrow> 'd state" where
  "publish_all es s = fold (\<lambda>e t. fst (emitDashboard e t)) es s"

text \<open>
  The tasks the event loop runs, and a run of them in order. A task that throws leaves
  the state it had reached, and the run goes on from there.
\<close>

datatype 'd task = Publish "'d DashboardEvent" | Connect ref | Close ref

fun step :: "('d \<Rightarrow> bool) \<Rightarrow> 'd task \<Rightarrow> 'd state \<Rightarrow> 'd state" where
  "step accepts (Publish e) s = fst (emitDashboard e s)"
| "step accepts (Connect ws) s = fst (connection accepts ws s)"
| "step accepts (Close ws) s = close ws s"

definition run :: "('d \<Rightarrow> bool) \<Rightarrow> 'd task list \<Rightarrow> 'd state \<Rightarrow> 'd state" where
  "run accepts ts s = fold (step accepts) ts s"

fun published :: "'d task list \<Rightarrow> 'd DashboardEvent list" where
  "published [] = []"
| "published (Publish e # ts) = e # published ts"
| "published (_ # ts) = published ts"

section \<open>Telegram chat identifiers\<close>

text \<open>
  The two conversions of \<^verbatim>\<open>telegram.ts\<close>. A JavaScript string is modelled as a
  \<open>string\<close> of ASCII characters, and a chat id as an \<open>int\<close>. For a safe integer
  (\<^verbatim>\<open>Number.isSafeInteger\<close>, at most \<open>2 ^ 53 - 1\<close> in absolute value) the conversion
  of a number to a string is its decimal expansion, and \<^verbatim>\<open>parseInt\<close> is exact; beyond
  that range JavaScript rounds to a double and switches to exponent notation from
  \<open>10 ^ 21\<close> on, which the model does not follow.
\<close>

definition isSafeInteger :: "int \<Rightarrow> bool" where
  "isSafeInteger n \<longleftrightarrow> \<bar>n\<bar> \<le> 2 ^ 53 - 1"

definition is_digit :: "char \<Rightarrow> bool" where
  "is_digit c \<longleftrightarrow> 48 \<le> (of_char c :: nat) \<and> (of_char c :: nat) \<le> 57"

definition digit_val :: "char \<Rightarrow> nat" where
  "digit_val c = of_char c - 48"

definition digit_char :: "nat \<Rightarrow> char" where
  "digit_char d = char_of (48 + d)"

text \<open>The ASCII members of the white space that \<^verbatim>\<open>parseInt\<close> skips.\<close>

definition is_whitespace :: "char \<Rightarrow> bool" where
  "is_whitespace c \<longleftrightarrow> (of_char c :: nat) \<in> {9, 10, 11, 12, 13, 32}"

fun digits :: "nat \<Rightarrow> string" where
  "digits n = (if n < 10 then [digit_char n] else digits (n div 10) @ [digit_char (n mod 10)])"

declare digits.simps [simp del]

text \<open>The string a template literal produces for an integer-valued number.\<close>

definition number_toString :: "int \<Rightarrow> string" where
  "number_toString n = (if n < 0 then CHR ''-'' # digits (nat (- n)) else digits (nat n))"

definition endsWith :: "string \<Rightarrow> string \<Rightarrow> bool" where
  "endsWith s searchString \<longleftrightarrow>
     length searchString \<le> length s \<and> drop (length s - length searchString) s = searchString"

text \<open>
  \<^verbatim>\<open>s.replace(pattern, replacement)\<close> with a string pattern replaces the first
  occurrence only.
\<close>

fun replace :: "string \<Rightarrow> string \<Rightarrow> string \<Rightarrow> string" where
  "replace [] pattern replacement = (if pattern = [] then replacement else [])"
| "replace (c # cs) pattern replacement =
     (if take (length pattern) (c # cs) = pattern
      then replacement @ drop (length pattern) (c # cs)
      else c # replace cs pattern replacement)"

text \<open>
  \<^verbatim>\<open>parseInt(s, 10)\<close>: leading white space is skipped, one sign is read, then the
  longest run of decimal digits; \<open>None\<close> stands for \<^verbatim>\<open>NaN\<close>, the result when that
  run is empty.
\<close>

definition parseInt :: "string \<Rightarrow> int option" where
  "parseInt s =
     (let S = dropWhile is_whitespace s;
          sign = (case S of c # _ \<Rightarrow> if c = CHR ''-'' then - 1 else 1 | [] \<Rightarrow> (1 :: int));
          S1 = (case S of c # r \<Rightarrow> if c = CHR ''-'' \<or> c = CHR ''+'' then r else S | [] \<Rightarrow> []);
          Z = takeWhile is_digit S1
      in if Z = [] then None
         else Some (sign * int (foldl (\<lambda>a c. 10 * a + digit_val c) 0 Z)))"

definition telegramChatIdToJid :: "int \<Rightarrow> string" where
  "telegramChatIdToJid chatId = number_toString chatId @ ''@telegram''"

text \<open>The result \<open>None\<close> is the \<^verbatim>\<open>null\<close> of the source.\<close>

definition jidToTelegramChatId :: "string \<Rightarrow> int option" where
  "jidToTelegramChatId jid =
     (if \<not> endsWith jid ''@telegram'' then None
      else (case parseInt (replace jid ''@telegram'' '''') of None \<Rightarrow> None | Some n \<Rightarrow> Some n))"

section \<open>Derived notions\<close>

text \<open>The retained history: the contents of the emitter's own array.\<close>

abbreviation retained :: "'d state \<Rightarrow> 'd DashboardEvent list" where
  "retained s \<equiv> heap s (recentEvents s)"



text \<open>
  What holds of every state the process reaches when the dashboard server is the only
  subscriber of the emitter, as it is in this repository: references in use are allocated,
  the retained history fits the capacity, every listener is the handler of some
  connection, and no function object is registered twice.
\<close>

definition server_inv :: "('d \<Rightarrow> bool) \<Rightarrow> 'd state \<Rightarrow> bool" where
  "server_inv accepts s \<longleftrightarrow>
     recentEvents s < nextRef s \<and>
     length (retained s) \<le> maxEvents s \<and>
     distinct (map fn_ref (listeners s)) \<and>
     (\<forall>l\<in>set (listeners s). fn_ref l < nextRef s \<and> (\<exists>w. call l = handler accepts w)) \<and>
     (\<forall>w. \<forall>k\<in>set (closeListeners (sockets s w)). k < nextRef s)"

text \<open>The listener invocations made on the way from \<open>s\<close> to a later state \<open>s'\<close>.\<close>

definition new_invocations :: "'d state \<Rightarrow> 'd state \<Rightarrow> (ref \<times> 'd DashboardEvent) list" where
  "new_invocations s s' = drop (length (invoked s)) (invoked s')"

text \<open>
  The handler with reference \<open>h\<close> of the open connection \<open>c\<close> is registered exactly
  once, every other listener is the handler of another connection, and no other socket's
  close listener would remove \<open>h\<close>.
\<close>

definition subscribed :: "('d \<Rightarrow> bool) \<Rightarrow> ref \<Rightarrow> ref \<Rightarrow> 'd state \<Rightarrow> bool" where
  "subscribed accepts h c s \<longleftrightarrow>
     h < nextRef s \<and>
     length (filter (\<lambda>l. fn_ref l = h) (listeners s)) = 1 \<and>
     (\<forall>l\<in>set (listeners s).
        (fn_ref l = h \<longrightarrow> call l = handler accepts c) \<and>
        (fn_ref l \<noteq> h \<longrightarrow> (\<exists>w. w \<noteq> c \<and> call l = handler accepts w))) \<and>
     (\<forall>w. w \<noteq> c \<longrightarrow> h \<notin> set (closeListeners (sockets s w))) \<and>
     readyState (sockets s c) = OPEN"

text \<open>
  In a sequence of operations on a socket, every \<^verbatim>\<open>send\<close> of a frame selected by
  \<open>P\<close> comes immediately after a read of \<open>readyState\<close> that found \<open>OPEN\<close>; \<open>prev\<close> is
  the operation before the sequence, if any.
\<close>

fun checked_after :: "('d message \<Rightarrow> bool) \<Rightarrow> 'd socket_op option \<Rightarrow> 'd socket_op list \<Rightarrow> bool" where
  "checked_after P prev [] = True"
| "checked_after P prev (x # xs) =
     ((case x of SendCall m \<Rightarrow> P m \<longrightarrow> prev = Some (ReadyStateRead OPEN) | ReadyStateRead _ \<Rightarrow> True)
      \<and> checked_after P (Some x) xs)"

definition sends_checked :: "('d message \<Rightarrow> bool) \<Rightarrow> 'd socket_op list \<Rightarrow> bool" where
  "sends_checked P xs = checked_after P None xs"

fun is_live :: "'d message \<Rightarrow> bool" where
  "is_live (event_msg e) = True"
| "is_live (history_msg es) = False"

definition live_sends_checked :: "'d socket_op list \<Rightarrow> bool" where
  "live_sends_checked xs = sends_checked is_live xs"

definition every_send_checked :: "'d socket_op list \<Rightarrow> bool" where
  "every_send_checked xs = sends_checked (\<lambda>m. True) xs"

section \<open>Example inputs\<close>

text \<open>
  Payloads for the examples, a string, which \<^verbatim>\<open>JSON.stringify\<close> accepts, and a
  \<^verbatim>\<open>BigInt\<close>, on which it throws; an event as a producer of chat messages builds it,
  and one whose payload is a \<^verbatim>\<open>BigInt\<close>; a subscriber callback that throws; and a
  socket as the \<^verbatim>\<open>ws\<close> library hands it to the connection callback: open, with
  nothing sent and no listeners; and a socket between the start of its closing handshake
  and its \<^verbatim>\<open>'close'\<close> event.
\<close>

datatype payload = Text string | BigInt int

fun serialisable :: "payload \<Rightarrow> bool" where
  "serialisable (Text t) = True"
| "serialisable (BigInt n) = False"

definition msg_event :: "string \<Rightarrow> payload DashboardEvent" where
  "msg_event t =
     \<lparr>type = message_received, timestamp = t, groupFolder = None, chatJid = None,
      data = Text ''payload''\<rparr>"

definition bigint_event :: "string \<Rightarrow> payload DashboardEvent" where
  "bigint_event t =
     \<lparr>type = agent_event, timestamp = t, groupFolder = None, chatJid = None, data = BigInt 1\<rparr>"

definition failing_listener :: "ref \<Rightarrow> 'd listener" where
  "failing_listener h = \<lparr>fn_ref = h, call = (\<lambda>e w. (w, Some (Thrown ''subscriber failed'')))\<rparr>"

definition closing_socket :: "ref \<Rightarrow> 'd state \<Rightarrow> 'd state" where
  "closing_socket ws s =
     s\<lparr>sockets := (sockets s)(ws := (sockets s ws)\<lparr>readyState := CLOSING\<rparr>)\<rparr>"

definition open_socket :: "ref \<Rightarrow> 'd state \<Rightarrow> 'd state" where
  "open_socket ws s =
     s\<lparr>sockets := (sockets s)
        (ws := \<lparr>readyState = OPEN, sent = [], ops = [], closeListeners = []\<rparr>)\<rparr>"

section \<open>Frame and effect lemmas\<close>

lemma emit_frame:
  "heap (fst (emit ls e s)) = heap s \<and> ids (fst (emit ls e s)) = ids s \<and>
   nextRef (fst (emit ls e s)) = nextRef s \<and> nextObj (fst (emit ls e s)) = nextObj s \<and>
   recentEvents (fst (emit ls e s)) = recentEvents s \<and> maxEvents (fst (emit ls e s)) = maxEvents s \<and>
   listeners (fst (emit ls e s)) = listeners s"
  by (induction ls arbitrary: s) (auto simp: emit.simps(2) Let_def split: option.splits)

lemma emit_depends:
  "sockets s = sockets s' \<Longrightarrow> invoked s = invoked s' \<Longrightarrow>
   snd (emit ls e s) = snd (emit ls e s') \<and>
   sockets (fst (emit ls e s)) = sockets (fst (emit ls e s')) \<and>
   invoked (fst (emit ls e s)) = invoked (fst (emit ls e s'))"
proof (induction ls arbitrary: s s')
  case Nil
  then show ?case by simp
next
  case (Cons l ls)
  let ?t = "s\<lparr>sockets := fst (call l e (sockets s)), invoked := invoked s @ [(fn_ref l, e)]\<rparr>"
  let ?t' = "s'\<lparr>sockets := fst (call l e (sockets s')), invoked := invoked s' @ [(fn_ref l, e)]\<rparr>"
  have "sockets ?t = sockets ?t'" "invoked ?t = invoked ?t'"
    using Cons.prems by simp_all
  from Cons.IH[OF this] show ?case
    using Cons.prems by (simp add: emit.simps(2) Let_def split: option.splits)
qed

lemma emitDashboard_emit:
  "\<exists>t. emitDashboard e s = emit (listeners s) e t \<and> sockets t = sockets s \<and> invoked t = invoked s"
proof -
  define t where "t = (let s0 = s\<lparr>nextObj := Suc (nextObj s)\<rparr>;
      s1 = push (recentEvents s) (nextObj s) e s0
    in if length (heap s1 (recentEvents s)) > maxEvents s then shift (recentEvents s) s1 else s1)"
  have ls: "listeners t = listeners s" and so: "sockets t = sockets s" and iv: "invoked t = invoked s"
    by (simp_all add: t_def Let_def push_def shift_def split: list.splits)
  have a: "emitDashboard e s = emit (listeners t) e t"
    by (simp add: emitDashboard_def Let_def t_def push_def)
  from a ls so iv show ?thesis by auto
qed

lemma emitDashboard_frame:
  "nextRef (fst (emitDashboard e s)) = nextRef s \<and>
   recentEvents (fst (emitDashboard e s)) = recentEvents s \<and>
   maxEvents (fst (emitDashboard e s)) = maxEvents s \<and>
   listeners (fst (emitDashboard e s)) = listeners s"
  by (simp add: emitDashboard_def Let_def emit_frame push_def shift_def split: list.splits)

lemma emitDashboard_heap:
  "heap (fst (emitDashboard e s)) =
     (heap s)(recentEvents s :=
        (if length (retained s) + 1 > maxEvents s then tl (retained s @ [e]) else retained s @ [e]))"
  by (auto simp add: emitDashboard_def Let_def emit_frame push_def shift_def split: list.splits)


lemma publish_all_Cons: "publish_all (e # es) s = publish_all es (fst (emitDashboard e s))"
  by (simp add: publish_all_def)

lemma publish_all_frame:
  "nextRef (publish_all es s) = nextRef s \<and> recentEvents (publish_all es s) = recentEvents s \<and>
   maxEvents (publish_all es s) = maxEvents s \<and> listeners (publish_all es s) = listeners s"
  by (induction es arbitrary: s) (simp_all add: publish_all_Cons emitDashboard_frame, simp add: publish_all_def)

lemma emitDashboard_retained:
  "length (retained s) \<le> maxEvents s \<Longrightarrow>
   heap (fst (emitDashboard e s)) (recentEvents s)
     = drop (length (retained s @ [e]) - maxEvents s) (retained s @ [e])"
proof (cases "length (retained s) < maxEvents s")
  case True
  then show ?thesis by (simp add: emitDashboard_heap)
next
  case False
  assume "length (retained s) \<le> maxEvents s"
  with False have eq: "length (retained s) = maxEvents s" by simp
  then have "length (retained s @ [e]) - maxEvents s = Suc 0" by simp
  moreover have "heap (fst (emitDashboard e s)) (recentEvents s) = tl (retained s @ [e])"
    using eq by (simp add: emitDashboard_heap)
  ultimately show ?thesis by (simp only: drop_Suc drop_0)
qed

lemma drop_overflow_step:
  assumes "length (drop (length xs - m) xs) \<le> m"
  shows "drop (length (drop (length xs - m) xs @ ys) - m) (drop (length xs - m) xs @ ys)
       = drop (length (xs @ ys) - m) (xs @ ys)"
proof (cases "length xs \<le> m")
  case True
  then show ?thesis by simp
next
  case False
  then have "length (drop (length xs - m) xs) = m" by simp
  then show ?thesis using False by (simp add: add.commute)
qed

lemma publish_all_retained:
  "length (retained s) \<le> maxEvents s \<Longrightarrow>
   retained (publish_all es s) = drop (length (retained s @ es) - maxEvents s) (retained s @ es)"
proof (induction es arbitrary: s)
  case Nil
  then show ?case by (simp add: publish_all_def)
next
  case (Cons e es)
  let ?s1 = "fst (emitDashboard e s)"
  let ?m = "maxEvents s"
  have fr: "recentEvents ?s1 = recentEvents s" "maxEvents ?s1 = maxEvents s"
    by (simp_all add: emitDashboard_frame)
  have r1: "heap ?s1 (recentEvents s) = drop (length (retained s @ [e]) - ?m) (retained s @ [e])"
    using Cons.prems by (rule emitDashboard_retained)
  then have le: "length (retained ?s1) \<le> maxEvents ?s1" by (simp add: fr)
  have "retained (publish_all es ?s1)
      = drop (length (heap ?s1 (recentEvents s) @ es) - ?m) (heap ?s1 (recentEvents s) @ es)"
    using Cons.IH[OF le] by (simp only: fr)
  also have "\<dots> = drop (length ((retained s @ [e]) @ es) - ?m) ((retained s @ [e]) @ es)"
    unfolding r1 by (rule drop_overflow_step) simp
  finally show ?case by (simp add: publish_all_Cons fr)
qed

lemma handler_not_open:
  "readyState (\<sigma> w) \<noteq> OPEN \<Longrightarrow>
   handler accepts w e \<sigma>
     = (\<sigma>(w := (\<sigma> w)\<lparr>ops := ops (\<sigma> w) @ [ReadyStateRead (readyState (\<sigma> w))]\<rparr>), None)"
  by (simp add: handler_def ws_readyState_def Let_def)

lemma handler_open_accepted:
  "readyState (\<sigma> w) = OPEN \<Longrightarrow> accepts (data e) \<Longrightarrow>
   handler accepts w e \<sigma>
     = (\<sigma>(w := (\<sigma> w)\<lparr>sent := sent (\<sigma> w) @ [event_msg e],
                         ops := ops (\<sigma> w) @ [ReadyStateRead OPEN, SendCall (event_msg e)]\<rparr>), None)"
  by (simp add: handler_def ws_readyState_def ws_send_def stringify_def Let_def)

lemma handler_open_rejected:
  "readyState (\<sigma> w) = OPEN \<Longrightarrow> \<not> accepts (data e) \<Longrightarrow>
   handler accepts w e \<sigma>
     = (\<sigma>(w := (\<sigma> w)\<lparr>ops := ops (\<sigma> w) @ [ReadyStateRead OPEN]\<rparr>), Some (Thrown ''TypeError''))"
  by (simp add: handler_def ws_readyState_def stringify_def Let_def)

lemma handler_cases:
  obtains (closed) "readyState (\<sigma> w) \<noteq> OPEN"
      "handler accepts w e \<sigma>
         = (\<sigma>(w := (\<sigma> w)\<lparr>ops := ops (\<sigma> w) @ [ReadyStateRead (readyState (\<sigma> w))]\<rparr>), None)"
    | (accepted) "readyState (\<sigma> w) = OPEN" "accepts (data e)"
      "handler accepts w e \<sigma>
         = (\<sigma>(w := (\<sigma> w)\<lparr>sent := sent (\<sigma> w) @ [event_msg e],
                             ops := ops (\<sigma> w) @ [ReadyStateRead OPEN, SendCall (event_msg e)]\<rparr>), None)"
    | (rejected) "readyState (\<sigma> w) = OPEN" "\<not> accepts (data e)"
      "handler accepts w e \<sigma>
         = (\<sigma>(w := (\<sigma> w)\<lparr>ops := ops (\<sigma> w) @ [ReadyStateRead OPEN]\<rparr>), Some (Thrown ''TypeError''))"
  using handler_not_open[of \<sigma> w accepts e] handler_open_accepted[of \<sigma> w accepts e]
    handler_open_rejected[of \<sigma> w accepts e]
  by blast

lemma handler_returns: "accepts (data e) \<Longrightarrow> snd (handler accepts w e \<sigma>) = None"
  by (cases rule: handler_cases[of \<sigma> w accepts e]) simp_all

lemma handler_other: "c \<noteq> w \<Longrightarrow> fst (handler accepts w e \<sigma>) c = \<sigma> c"
  by (cases rule: handler_cases[of \<sigma> w accepts e]) simp_all

lemma handler_keeps:
  "readyState (fst (handler accepts w e \<sigma>) c) = readyState (\<sigma> c) \<and>
   closeListeners (fst (handler accepts w e \<sigma>) c) = closeListeners (\<sigma> c)"
  by (cases rule: handler_cases[of \<sigma> w accepts e]) simp_all

lemma handler_sent_not_open:
  "readyState (\<sigma> c) \<noteq> OPEN \<Longrightarrow> sent (fst (handler accepts w e \<sigma>) c) = sent (\<sigma> c)"
  by (cases rule: handler_cases[of \<sigma> w accepts e]) auto

lemma handler_sent_open:
  "readyState (\<sigma> c) = OPEN \<Longrightarrow> accepts (data e) \<Longrightarrow>
   sent (fst (handler accepts c e \<sigma>) c) = sent (\<sigma> c) @ [event_msg e]"
  by (simp add: handler_open_accepted)

lemma handler_inj:
  "handler accepts a = (handler accepts b :: 'd DashboardEvent \<Rightarrow> _) \<Longrightarrow> a = b"
proof (rule ccontr)
  assume eq: "handler accepts a = (handler accepts b :: 'd DashboardEvent \<Rightarrow> _)" and ne: "a \<noteq> b"
  define w :: "ref \<Rightarrow> 'd WebSocket" where
    "w = (\<lambda>_. \<lparr>readyState = CLOSED, sent = [], ops = [], closeListeners = []\<rparr>)"
  fix e :: "'d DashboardEvent"
  have "ops (fst (handler accepts a e w) a) = [ReadyStateRead CLOSED]"
    by (simp add: handler_not_open w_def)
  moreover have "ops (fst (handler accepts b e w) a) = []"
    using ne by (simp add: handler_other) (simp add: w_def)
  ultimately show False using eq by simp
qed

lemma emit_server_returns:
  "\<forall>l\<in>set ls. \<forall>\<sigma>. snd (call l e \<sigma>) = None \<Longrightarrow> snd (emit ls e s) = None"
  by (induction ls arbitrary: s) (simp_all add: emit.simps(2) Let_def)

lemma emit_step:
  "emit (l # ls) e s =
     (if snd (call l e (sockets s)) = None
      then emit ls e (s\<lparr>sockets := fst (call l e (sockets s)), invoked := invoked s @ [(fn_ref l, e)]\<rparr>)
      else (s\<lparr>sockets := fst (call l e (sockets s)), invoked := invoked s @ [(fn_ref l, e)]\<rparr>,
            snd (call l e (sockets s))))"
  by (auto simp add: emit.simps(2) Let_def split: option.splits)

lemma emit_server_keeps:
  "\<forall>l\<in>set ls. \<exists>w. call l = handler accepts w \<Longrightarrow>
   readyState (sockets (fst (emit ls e s)) c) = readyState (sockets s c) \<and>
   closeListeners (sockets (fst (emit ls e s)) c) = closeListeners (sockets s c)"
proof (induction ls arbitrary: s)
  case Nil
  then show ?case by simp
next
  case (Cons l ls)
  then obtain w where w: "call l = handler accepts w" by auto
  from Cons.prems have rest: "\<forall>l\<in>set ls. \<exists>w. call l = handler accepts w" by simp
  show ?case
    unfolding emit_step by (simp add: w Cons.IH[OF rest] handler_keeps)
qed

lemma emit_server_not_open:
  "\<forall>l\<in>set ls. \<exists>w. call l = handler accepts w \<Longrightarrow> readyState (sockets s c) \<noteq> OPEN \<Longrightarrow>
   sent (sockets (fst (emit ls e s)) c) = sent (sockets s c)"
proof (induction ls arbitrary: s)
  case Nil
  then show ?case by simp
next
  case (Cons l ls)
  then obtain w where w: "call l = handler accepts w" by auto
  from Cons.prems have rest: "\<forall>l\<in>set ls. \<exists>w. call l = handler accepts w" by simp
  let ?t = "s\<lparr>sockets := fst (handler accepts w e (sockets s)), invoked := invoked s @ [(fn_ref l, e)]\<rparr>"
  have "readyState (sockets ?t c) \<noteq> OPEN"
    using Cons.prems(2) by (simp add: handler_keeps)
  from Cons.IH[OF rest this] show ?case
    unfolding emit_step using Cons.prems(2) by (simp add: w handler_sent_not_open)
qed

lemma emit_others_untouched:
  "\<forall>l\<in>set ls. \<exists>w. w \<noteq> c \<and> call l = handler accepts w \<Longrightarrow>
   sockets (fst (emit ls e s)) c = sockets s c"
proof (induction ls arbitrary: s)
  case Nil
  then show ?case by simp
next
  case (Cons l ls)
  then obtain w where w: "w \<noteq> c" "call l = handler accepts w" by auto
  from Cons.prems have rest: "\<forall>l\<in>set ls. \<exists>w. w \<noteq> c \<and> call l = handler accepts w" by simp
  show ?case
    unfolding emit_step using w(1) by (simp add: w(2) Cons.IH[OF rest] handler_other)
qed

lemma emit_server_sent:
  assumes "\<forall>l\<in>set ls. (P l \<longrightarrow> call l = handler accepts c) \<and>
             (\<not> P l \<longrightarrow> (\<exists>w. w \<noteq> c \<and> call l = handler accepts w))"
    and "readyState (sockets s c) = OPEN" and "accepts (data e)"
  shows "snd (emit ls e s) = None \<and>
         sent (sockets (fst (emit ls e s)) c)
           = sent (sockets s c) @ replicate (length (filter P ls)) (event_msg e)"
  using assms(1,2)
proof (induction ls arbitrary: s)
  case Nil
  then show ?case by simp
next
  case (Cons l ls)
  from Cons.prems(1) have rest:
    "\<forall>l\<in>set ls. (P l \<longrightarrow> call l = handler accepts c) \<and>
        (\<not> P l \<longrightarrow> (\<exists>w. w \<noteq> c \<and> call l = handler accepts w))"
    by simp
  show ?case
  proof (cases "P l")
    case True
    with Cons.prems(1) have w: "call l = handler accepts c" by simp
    let ?t = "s\<lparr>sockets := fst (handler accepts c e (sockets s)), invoked := invoked s @ [(fn_ref l, e)]\<rparr>"
    have op: "readyState (sockets ?t c) = OPEN"
      using Cons.prems(2) by (simp add: handler_keeps)
    from Cons.IH[OF rest op] show ?thesis
      unfolding emit_step using Cons.prems(2) True assms(3)
      by (simp add: w handler_returns handler_sent_open replicate_app_Cons_same)
  next
    case False
    with Cons.prems(1) obtain w where w: "w \<noteq> c" "call l = handler accepts w" by auto
    let ?t = "s\<lparr>sockets := fst (handler accepts w e (sockets s)), invoked := invoked s @ [(fn_ref l, e)]\<rparr>"
    have op: "readyState (sockets ?t c) = OPEN"
      using Cons.prems(2) by (simp add: handler_keeps)
    from Cons.IH[OF rest op] show ?thesis
      unfolding emit_step using False w(1) assms(3)
      by (simp add: w(2) handler_returns handler_other)
  qed
qed

lemma emit_outcomes:
  "\<exists>k\<le>length ls.
     invoked (fst (emit ls e s)) = invoked s @ map (\<lambda>l. (fn_ref l, e)) (take k ls) \<and>
     (snd (emit ls e s) = None \<longrightarrow> k = length ls) \<and>
     (\<forall>x. snd (emit ls e s) = Some x \<longrightarrow> 0 < k) \<and>
     (\<forall>i<k. snd (call (ls ! i) e (sockets (fst (emit (take i ls) e s))))
               = (if Suc i < k then None else snd (emit ls e s)))"
proof (induction ls arbitrary: s)
  case Nil
  then show ?case by simp
next
  case (Cons l ls)
  let ?t = "s\<lparr>sockets := fst (call l e (sockets s)), invoked := invoked s @ [(fn_ref l, e)]\<rparr>"
  show ?case
  proof (cases "snd (call l e (sockets s))")
    case None
    then have step: "emit (l # ms) e s = emit ms e ?t" for ms
      by (simp add: emit_step)
    from Cons.IH[of ?t] obtain k where
      k: "k \<le> length ls \<and>
        invoked (fst (emit ls e ?t)) = invoked ?t @ map (\<lambda>l. (fn_ref l, e)) (take k ls) \<and>
        (snd (emit ls e ?t) = None \<longrightarrow> k = length ls) \<and>
        (\<forall>x. snd (emit ls e ?t) = Some x \<longrightarrow> 0 < k) \<and>
        (\<forall>i<k. snd (call (ls ! i) e (sockets (fst (emit (take i ls) e ?t))))
               = (if Suc i < k then None else snd (emit ls e ?t)))" ..
    note k1 = k[THEN conjunct1]
    note k2 = k[THEN conjunct2, THEN conjunct1]
    note k3 = k[THEN conjunct2, THEN conjunct2, THEN conjunct1]
    note k4 = k[THEN conjunct2, THEN conjunct2, THEN conjunct2, THEN conjunct1]
    note k5 = k[THEN conjunct2, THEN conjunct2, THEN conjunct2, THEN conjunct2, rule_format]
    have a: "Suc k \<le> length (l # ls)" using k1 by simp
    have b: "invoked (fst (emit (l # ls) e s))
        = invoked s @ map (\<lambda>l. (fn_ref l, e)) (take (Suc k) (l # ls))"
      unfolding step k2 by simp
    have c: "snd (emit (l # ls) e s) = None \<longrightarrow> Suc k = length (l # ls)"
      unfolding step using k3 by simp
    have d: "\<forall>x. snd (emit (l # ls) e s) = Some x \<longrightarrow> 0 < Suc k" by simp
    have f: "\<forall>i<Suc k. snd (call ((l # ls) ! i) e (sockets (fst (emit (take i (l # ls)) e s))))
               = (if Suc i < Suc k then None else snd (emit (l # ls) e s))"
    proof (intro allI impI)
      fix i assume i: "i < Suc k"
      show "snd (call ((l # ls) ! i) e (sockets (fst (emit (take i (l # ls)) e s))))
               = (if Suc i < Suc k then None else snd (emit (l # ls) e s))"
      proof (cases i)
        case 0
        have "k = 0 \<Longrightarrow> snd (emit ls e ?t) = None"
          using k4 by (cases "snd (emit ls e ?t)") auto
        then show ?thesis using None by (auto simp add: 0 step)
      next
        case (Suc j)
        with i have j: "j < k" by simp
        have "take i (l # ls) = l # take j ls" by (simp add: Suc)
        then have "emit (take i (l # ls)) e s = emit (take j ls) e ?t" by (simp only: step)
        then show ?thesis using k5[OF j] by (simp add: Suc step)
      qed
    qed
    show ?thesis
      by (rule exI[of _ "Suc k"], rule conjI, rule a, rule conjI, rule b, rule conjI, rule c,
          rule conjI, rule d, rule f)
  next
    case (Some y)
    have st: "emit (l # ms) e s = (?t, Some y)" for ms
      using Some by (simp add: emit_step)
    have a: "Suc 0 \<le> length (l # ls)" by simp
    have b: "invoked (fst (emit (l # ls) e s))
        = invoked s @ map (\<lambda>l. (fn_ref l, e)) (take (Suc 0) (l # ls))"
      unfolding st by simp
    have c: "snd (emit (l # ls) e s) = None \<longrightarrow> Suc 0 = length (l # ls)"
      unfolding st by simp
    have d: "\<forall>x. snd (emit (l # ls) e s) = Some x \<longrightarrow> 0 < Suc 0" by simp
    have f: "\<forall>i<Suc 0. snd (call ((l # ls) ! i) e (sockets (fst (emit (take i (l # ls)) e s))))
               = (if Suc i < Suc 0 then None else snd (emit (l # ls) e s))"
      using Some by (simp add: st)
    show ?thesis
      by (rule exI[of _ "Suc 0"], rule conjI, rule a, rule conjI, rule b, rule conjI, rule c,
          rule conjI, rule d, rule f)
  qed
qed

lemma emit_invoked_prefix:
  "\<exists>n\<le>length ls. invoked (fst (emit ls e s)) = invoked s @ map (\<lambda>l. (fn_ref l, e)) (take n ls)"
proof -
  from emit_outcomes[of ls e s] obtain k where
    k: "k \<le> length ls \<and> invoked (fst (emit ls e s)) = invoked s @ map (\<lambda>l. (fn_ref l, e)) (take k ls) \<and>
     (snd (emit ls e s) = None \<longrightarrow> k = length ls) \<and>
     (\<forall>x. snd (emit ls e s) = Some x \<longrightarrow> 0 < k) \<and>
     (\<forall>i<k. snd (call (ls ! i) e (sockets (fst (emit (take i ls) e s))))
               = (if Suc i < k then None else snd (emit ls e s)))" ..
  show ?thesis
    by (rule exI[of _ k], rule conjI, rule k[THEN conjunct1], rule k[THEN conjunct2, THEN conjunct1])
qed

lemma emit_all_closed:
  "\<forall>l\<in>set ls. \<exists>w. call l = handler accepts w \<Longrightarrow> \<forall>w. readyState (sockets s w) \<noteq> OPEN \<Longrightarrow>
   snd (emit ls e s) = None"
proof (induction ls arbitrary: s)
  case Nil
  then show ?case by simp
next
  case (Cons l ls)
  then obtain w where w: "call l = handler accepts w" by auto
  from Cons.prems have rest: "\<forall>l\<in>set ls. \<exists>w. call l = handler accepts w" by simp
  let ?t = "s\<lparr>sockets := fst (handler accepts w e (sockets s)), invoked := invoked s @ [(fn_ref l, e)]\<rparr>"
  have cl: "\<forall>w. readyState (sockets ?t w) \<noteq> OPEN"
    using Cons.prems(2) by (simp add: handler_keeps)
  have "snd (handler accepts w e (sockets s)) = None"
    using Cons.prems(2) by (simp add: handler_not_open)
  then show ?case
    unfolding emit_step using Cons.IH[OF rest cl] by (simp add: w)
qed

section \<open>Lemmas on listeners, connections and runs\<close>

lemma removeListener_absent: "h \<notin> set (map fn_ref ls) \<Longrightarrow> removeListener h ls = ls"
  by (induction ls) auto

lemma removeListener_subset: "set (removeListener h ls) \<subseteq> set ls"
  by (induction ls) auto

lemma removeListener_refs: "x \<in> set (map fn_ref (removeListener h ls)) \<Longrightarrow> x \<in> set (map fn_ref ls)"
  using removeListener_subset[of h ls] by auto

lemma removeListener_distinct:
  "distinct (map fn_ref ls) \<Longrightarrow> distinct (map fn_ref (removeListener h ls))"
proof (induction ls)
  case Nil
  then show ?case by simp
next
  case (Cons l ls)
  then have "fn_ref l \<notin> set (map fn_ref (removeListener h ls))"
    using removeListener_refs[of "fn_ref l" h ls] by auto
  with Cons show ?case by simp
qed

lemma removeListener_removes:
  "distinct (map fn_ref ls) \<Longrightarrow> h \<notin> set (map fn_ref (removeListener h ls))"
proof (induction ls)
  case Nil
  then show ?case by simp
next
  case (Cons l ls)
  then show ?case by (cases "fn_ref l = h") auto
qed

lemma removeListener_filter_other:
  "k \<noteq> h \<Longrightarrow> filter (\<lambda>l. fn_ref l = h) (removeListener k ls) = filter (\<lambda>l. fn_ref l = h) ls"
  by (induction ls) auto

lemma fold_off: "fold off ks s = s\<lparr>listeners := fold removeListener ks (listeners s)\<rparr>"
  by (induction ks arbitrary: s) (simp_all add: off_def)

lemma fold_removeListener_subset: "set (fold removeListener ks ls) \<subseteq> set ls"
proof (induction ks arbitrary: ls)
  case Nil
  then show ?case by simp
next
  case (Cons k ks)
  have "set (fold removeListener ks (removeListener k ls)) \<subseteq> set (removeListener k ls)"
    by (rule Cons.IH)
  also have "\<dots> \<subseteq> set ls" by (rule removeListener_subset)
  finally show ?case by simp
qed

lemma fold_removeListener_distinct:
  "distinct (map fn_ref ls) \<Longrightarrow> distinct (map fn_ref (fold removeListener ks ls))"
  by (induction ks arbitrary: ls) (simp_all add: removeListener_distinct)

lemma fold_removeListener_removes:
  "distinct (map fn_ref ls) \<Longrightarrow> k \<in> set ks \<Longrightarrow> k \<notin> set (map fn_ref (fold removeListener ks ls))"
proof (induction ks arbitrary: ls)
  case Nil
  then show ?case by simp
next
  case (Cons a ks)
  show ?case
  proof (cases "k = a")
    case True
    have "k \<notin> set (map fn_ref (removeListener k ls))"
      using Cons.prems(1) by (rule removeListener_removes)
    moreover have "set (fold removeListener ks (removeListener k ls)) \<subseteq> set (removeListener k ls)"
      by (rule fold_removeListener_subset)
    ultimately show ?thesis using True by auto
  next
    case False
    with Cons.prems have "k \<in> set ks" by simp
    from Cons.IH[OF removeListener_distinct[OF Cons.prems(1)] this] show ?thesis by simp
  qed
qed

lemma fold_removeListener_filter_other:
  "h \<notin> set ks \<Longrightarrow>
   filter (\<lambda>l. fn_ref l = h) (fold removeListener ks ls) = filter (\<lambda>l. fn_ref l = h) ls"
  by (induction ks arbitrary: ls) (auto simp: removeListener_filter_other)

lemma fold_removeListener_absent:
  "\<forall>k\<in>set ks. k \<notin> set (map fn_ref ls) \<Longrightarrow> fold removeListener ks ls = ls"
  by (induction ks arbitrary: ls) (simp_all add: removeListener_absent)

lemma connection_accepted:
  "list_all (\<lambda>e. accepts (data e)) (retained s) \<Longrightarrow>
   connection accepts c s =
     (s\<lparr>heap := (heap s)(nextRef s := retained s),
        ids := (ids s)(nextRef s := ids s (recentEvents s)),
        nextRef := Suc (Suc (nextRef s)),
        listeners := listeners s @ [\<lparr>fn_ref = Suc (nextRef s), call = handler accepts c\<rparr>],
        sockets := (sockets s)(c := (sockets s c)
           \<lparr>sent := sent (sockets s c) @ [history_msg (retained s)],
            ops := ops (sockets s c) @ [SendCall (history_msg (retained s))],
            closeListeners := closeListeners (sockets s c) @ [Suc (nextRef s)]\<rparr>)\<rparr>, None)"
  by (simp add: connection_def getRecentEvents_def stringify_def on_def ws_send_def Let_def)

lemma connection_rejected:
  "\<not> list_all (\<lambda>e. accepts (data e)) (retained s) \<Longrightarrow>
   connection accepts c s =
     (s\<lparr>heap := (heap s)(nextRef s := retained s),
        ids := (ids s)(nextRef s := ids s (recentEvents s)),
        nextRef := Suc (nextRef s)\<rparr>, Some (Thrown ''TypeError''))"
  by (simp add: connection_def getRecentEvents_def stringify_def Let_def)

lemma close_eq:
  "close c s =
     s\<lparr>sockets := (sockets s)(c := (sockets s c)\<lparr>readyState := CLOSED\<rparr>),
       listeners := fold removeListener (closeListeners (sockets s c)) (listeners s)\<rparr>"
  by (simp add: close_def Let_def fold_off)

lemma server_inv_init: "server_inv accepts dashboardEvents"
  by (simp add: server_inv_def dashboardEvents_def)

lemma server_inv_publish:
  assumes "server_inv accepts s"
  shows "server_inv accepts (fst (emitDashboard e s))"
proof -
  let ?s' = "fst (emitDashboard e s)"
  have fr: "nextRef ?s' = nextRef s" "recentEvents ?s' = recentEvents s"
    "maxEvents ?s' = maxEvents s" "listeners ?s' = listeners s"
    by (simp_all add: emitDashboard_frame)
  have hs: "\<forall>l\<in>set (listeners s). \<exists>w. call l = handler accepts w"
    using assms by (simp add: server_inv_def)
  obtain t where t: "emitDashboard e s = emit (listeners s) e t" "sockets t = sockets s"
    using emitDashboard_emit by blast
  have cl: "closeListeners (sockets ?s' w) = closeListeners (sockets s w)" for w
    using emit_server_keeps[OF hs, of e t w] by (simp add: t)
  have "length (heap ?s' (recentEvents s)) \<le> maxEvents s"
    using assms by (simp add: emitDashboard_heap server_inv_def)
  then show ?thesis
    using assms by (simp add: server_inv_def fr cl)
qed

lemma server_inv_connection:
  assumes "server_inv accepts s"
  shows "server_inv accepts (fst (connection accepts c s))"
proof (cases "list_all (\<lambda>e. accepts (data e)) (retained s)")
  case True
  have "fn_ref l < nextRef s" if "l \<in> set (listeners s)" for l
    using assms that by (simp add: server_inv_def)
  then have "Suc (nextRef s) \<notin> fn_ref ` set (listeners s)" by fastforce
  then show ?thesis
    using assms by (auto simp add: server_inv_def connection_accepted[OF True] less_Suc_eq)
next
  case False
  show ?thesis
    using assms by (auto simp add: server_inv_def connection_rejected[OF False] less_Suc_eq)
qed

lemma server_inv_close:
  assumes "server_inv accepts s"
  shows "server_inv accepts (close c s)"
proof -
  let ?ls = "fold removeListener (closeListeners (sockets s c)) (listeners s)"
  have "set ?ls \<subseteq> set (listeners s)" by (rule fold_removeListener_subset)
  moreover have "distinct (map fn_ref ?ls)"
    using assms by (simp add: server_inv_def fold_removeListener_distinct)
  ultimately show ?thesis
    using assms by (auto simp add: server_inv_def close_eq)
qed

lemma server_inv_step: "server_inv accepts s \<Longrightarrow> server_inv accepts (step accepts t s)"
  by (cases t) (simp_all add: server_inv_publish server_inv_connection server_inv_close)

lemma run_Cons: "run accepts (t # ts) s = run accepts ts (step accepts t s)"
  by (simp add: run_def)

lemma run_Nil: "run accepts [] s = s"
  by (simp add: run_def)

lemma run_append: "run accepts (ts @ us) s = run accepts us (run accepts ts s)"
  by (simp add: run_def)

lemma server_inv_run: "server_inv accepts s \<Longrightarrow> server_inv accepts (run accepts ts s)"
  by (induction ts arbitrary: s) (simp_all add: run_Nil run_Cons server_inv_step)

lemma server_inv_publish_all: "server_inv accepts s \<Longrightarrow> server_inv accepts (publish_all es s)"
  by (induction es arbitrary: s) (simp_all add: publish_all_Cons server_inv_publish, simp add: publish_all_def)

lemma getRecentEvents_copy:
  "heap (snd (getRecentEvents s)) (fst (getRecentEvents s)) = retained s"
  by (simp add: getRecentEvents_def)

lemma emitDashboard_returns:
  "\<forall>l\<in>set (listeners s). \<forall>w. snd (call l e w) = None \<Longrightarrow> snd (emitDashboard e s) = None"
proof -
  assume a: "\<forall>l\<in>set (listeners s). \<forall>w. snd (call l e w) = None"
  obtain t where t: "emitDashboard e s = emit (listeners s) e t"
    using emitDashboard_emit by blast
  show ?thesis
    unfolding t using a by (rule emit_server_returns)
qed

lemma step_frame:
  "recentEvents (step accepts t s) = recentEvents s \<and> maxEvents (step accepts t s) = maxEvents s"
proof (cases t)
  case (Publish e)
  then show ?thesis by (simp add: emitDashboard_frame)
next
  case (Connect w)
  then show ?thesis
    by (cases "list_all (\<lambda>e. accepts (data e)) (retained s)")
       (simp_all add: connection_accepted connection_rejected)
next
  case (Close w)
  then show ?thesis by (simp add: close_eq)
qed

lemma published_Cons: "published (t # ts) = published [t] @ published ts"
  by (cases t) simp_all

lemma published_append: "published (ts @ us) = published ts @ published us"
  by (induction ts rule: published.induct) simp_all

lemma step_retained:
  assumes "server_inv accepts s"
  shows "heap (step accepts t s) (recentEvents s)
       = drop (length (retained s @ published [t]) - maxEvents s) (retained s @ published [t])"
proof -
  have le: "length (retained s) \<le> maxEvents s" and ne: "recentEvents s \<noteq> nextRef s"
    using assms by (simp_all add: server_inv_def)
  show ?thesis
  proof (cases t)
    case (Publish e)
    then show ?thesis using emitDashboard_retained[OF le, of e] by simp
  next
    case (Connect w)
    then show ?thesis using le ne
      by (cases "list_all (\<lambda>e. accepts (data e)) (retained s)")
         (simp_all add: connection_accepted connection_rejected)
  next
    case (Close w)
    then show ?thesis using le by (simp add: close_eq)
  qed
qed

lemma run_frame:
  "recentEvents (run accepts ts s) = recentEvents s \<and> maxEvents (run accepts ts s) = maxEvents s"
  by (induction ts arbitrary: s) (simp_all add: run_Nil run_Cons step_frame)

lemma run_retained:
  "server_inv accepts s \<Longrightarrow>
   retained (run accepts ts s)
     = drop (length (retained s @ published ts) - maxEvents s) (retained s @ published ts)"
proof (induction ts arbitrary: s)
  case Nil
  then show ?case by (simp add: run_Nil server_inv_def)
next
  case (Cons t ts)
  let ?s1 = "step accepts t s"
  let ?m = "maxEvents s"
  have fr: "recentEvents ?s1 = recentEvents s" "maxEvents ?s1 = maxEvents s"
    by (simp_all add: step_frame)
  have inv1: "server_inv accepts ?s1" using Cons.prems by (rule server_inv_step)
  have r1: "heap ?s1 (recentEvents s)
      = drop (length (retained s @ published [t]) - ?m) (retained s @ published [t])"
    using Cons.prems by (rule step_retained)
  have "retained (run accepts ts ?s1)
      = drop (length (heap ?s1 (recentEvents s) @ published ts) - ?m)
          (heap ?s1 (recentEvents s) @ published ts)"
    using Cons.IH[OF inv1] by (simp only: fr)
  also have "\<dots> = drop (length ((retained s @ published [t]) @ published ts) - ?m)
      ((retained s @ published [t]) @ published ts)"
    unfolding r1 by (rule drop_overflow_step) simp
  finally show ?case
    by (simp add: run_Cons run_frame fr published_Cons[of t ts])
qed

lemma checked_after_append:
  "checked_after P prev (xs @ ys)
     = (checked_after P prev xs \<and> checked_after P (if xs = [] then prev else Some (last xs)) ys)"
  by (induction xs arbitrary: prev) auto

lemma sends_checked_read:
  "sends_checked P (xs @ [ReadyStateRead st]) = sends_checked P xs"
  by (simp add: sends_checked_def checked_after_append)

lemma sends_checked_read_send:
  "sends_checked P (xs @ [ReadyStateRead OPEN, SendCall m]) = sends_checked P xs"
  by (simp add: sends_checked_def checked_after_append)

lemma sends_checked_unselected:
  "\<not> P m \<Longrightarrow> sends_checked P (xs @ [SendCall m]) = sends_checked P xs"
  by (simp add: sends_checked_def checked_after_append)

lemma handler_checked:
  "sends_checked P (ops (\<sigma> c)) \<Longrightarrow> sends_checked P (ops (fst (handler accepts w e \<sigma>) c))"
  by (cases rule: handler_cases[of \<sigma> w accepts e])
     (auto simp add: sends_checked_read sends_checked_read_send)

lemma emit_server_checked:
  "\<forall>l\<in>set ls. \<exists>w. call l = handler accepts w \<Longrightarrow> sends_checked P (ops (sockets s c)) \<Longrightarrow>
   sends_checked P (ops (sockets (fst (emit ls e s)) c))"
proof (induction ls arbitrary: s)
  case Nil
  then show ?case by simp
next
  case (Cons l ls)
  then obtain w where w: "call l = handler accepts w" by auto
  from Cons.prems have rest: "\<forall>l\<in>set ls. \<exists>w. call l = handler accepts w" by simp
  let ?t = "s\<lparr>sockets := fst (handler accepts w e (sockets s)), invoked := invoked s @ [(fn_ref l, e)]\<rparr>"
  have "sends_checked P (ops (sockets ?t c))"
    using Cons.prems(2) by (simp add: handler_checked)
  from Cons.IH[OF rest this] show ?case
    unfolding emit_step using Cons.prems(2) by (simp add: w handler_checked)
qed

lemma subscribed_handlers:
  "subscribed accepts h c s \<Longrightarrow> \<forall>l\<in>set (listeners s). \<exists>w. call l = handler accepts w"
  unfolding subscribed_def by metis

lemma subscribed_publish:
  assumes "subscribed accepts h c s" and "accepts (data e)"
  shows "subscribed accepts h c (fst (emitDashboard e s))"
    and "sent (sockets (fst (emitDashboard e s)) c) = sent (sockets s c) @ [event_msg e]"
proof -
  let ?s' = "fst (emitDashboard e s)"
  obtain t where t: "emitDashboard e s = emit (listeners s) e t" "sockets t = sockets s"
    using emitDashboard_emit by blast
  have hs: "\<forall>l\<in>set (listeners s). \<exists>w. call l = handler accepts w"
    using assms(1) by (rule subscribed_handlers)
  have cls: "\<forall>l\<in>set (listeners s). (fn_ref l = h \<longrightarrow> call l = handler accepts c) \<and>
        (\<not> fn_ref l = h \<longrightarrow> (\<exists>w. w \<noteq> c \<and> call l = handler accepts w))"
    using assms(1) by (simp add: subscribed_def)
  have op: "readyState (sockets t c) = OPEN"
    using assms(1) by (simp add: subscribed_def t)
  have one: "length (filter (\<lambda>l. fn_ref l = h) (listeners s)) = 1"
    using assms(1) by (simp add: subscribed_def)
  have "sent (sockets ?s' c) = sent (sockets s c) @ replicate 1 (event_msg e)"
    using emit_server_sent[OF cls op assms(2)] by (simp add: t one)
  then show "sent (sockets ?s' c) = sent (sockets s c) @ [event_msg e]" by simp
  have keep: "readyState (sockets ?s' w) = readyState (sockets s w) \<and>
      closeListeners (sockets ?s' w) = closeListeners (sockets s w)" for w
    using emit_server_keeps[OF hs, of e t w] by (simp add: t)
  show "subscribed accepts h c ?s'"
    using assms(1) by (simp add: subscribed_def emitDashboard_frame keep)
qed

lemma subscribed_connection:
  assumes "subscribed accepts h c s" and "w \<noteq> c"
  shows "subscribed accepts h c (fst (connection accepts w s))"
    and "sent (sockets (fst (connection accepts w s)) c) = sent (sockets s c)"
proof -
  have "h < nextRef s" using assms(1) by (simp add: subscribed_def)
  then have ne: "Suc (nextRef s) \<noteq> h" by simp
  show "sent (sockets (fst (connection accepts w s)) c) = sent (sockets s c)"
    using assms(2)
    by (cases "list_all (\<lambda>e. accepts (data e)) (retained s)")
       (simp_all add: connection_accepted connection_rejected)
  show "subscribed accepts h c (fst (connection accepts w s))"
  proof (cases "list_all (\<lambda>e. accepts (data e)) (retained s)")
    case True
    show ?thesis
      using assms ne by (auto simp add: subscribed_def connection_accepted[OF True])
  next
    case False
    show ?thesis
      using assms by (auto simp add: subscribed_def connection_rejected[OF False])
  qed
qed

lemma subscribed_close:
  assumes "subscribed accepts h c s" and "w \<noteq> c"
  shows "subscribed accepts h c (close w s)"
    and "sent (sockets (close w s) c) = sent (sockets s c)"
proof -
  show "sent (sockets (close w s) c) = sent (sockets s c)"
    using assms(2) by (simp add: close_eq)
  let ?ks = "closeListeners (sockets s w)"
  have "h \<notin> set ?ks" using assms by (simp add: subscribed_def)
  then have f: "filter (\<lambda>l. fn_ref l = h) (fold removeListener ?ks (listeners s))
      = filter (\<lambda>l. fn_ref l = h) (listeners s)"
    by (rule fold_removeListener_filter_other)
  have sub: "set (fold removeListener ?ks (listeners s)) \<subseteq> set (listeners s)"
    by (rule fold_removeListener_subset)
  have "\<forall>l\<in>set (fold removeListener ?ks (listeners s)).
        (fn_ref l = h \<longrightarrow> call l = handler accepts c) \<and>
        (fn_ref l \<noteq> h \<longrightarrow> (\<exists>w. w \<noteq> c \<and> call l = handler accepts w))"
    using assms(1) sub unfolding subscribed_def by blast
  then show "subscribed accepts h c (close w s)"
    using assms by (simp add: subscribed_def close_eq f)
qed

lemma subscribed_step:
  assumes "subscribed accepts h c s" and "t \<noteq> Connect c" and "t \<noteq> Close c"
    and "\<forall>e\<in>set (published [t]). accepts (data e)"
  shows "subscribed accepts h c (step accepts t s) \<and>
         sent (sockets (step accepts t s) c) = sent (sockets s c) @ map event_msg (published [t])"
proof (cases t)
  case (Publish e)
  with assms(4) have "accepts (data e)" by simp
  then show ?thesis using subscribed_publish[OF assms(1), of e] Publish by simp
next
  case (Connect w)
  with assms(2) have "w \<noteq> c" by simp
  then show ?thesis using subscribed_connection[OF assms(1), of w] Connect by simp
next
  case (Close w)
  with assms(3) have "w \<noteq> c" by simp
  then show ?thesis using subscribed_close[OF assms(1), of w] Close by simp
qed

lemma subscribed_run:
  "subscribed accepts h c s \<Longrightarrow> Connect c \<notin> set ts \<Longrightarrow> Close c \<notin> set ts \<Longrightarrow>
   \<forall>e\<in>set (published ts). accepts (data e) \<Longrightarrow>
   sent (sockets (run accepts ts s) c) = sent (sockets s c) @ map event_msg (published ts)"
proof (induction ts arbitrary: s)
  case Nil
  then show ?case by (simp add: run_Nil)
next
  case (Cons t ts)
  from Cons.prems have t: "t \<noteq> Connect c" "t \<noteq> Close c" by auto
  from Cons.prems(4) have acc: "\<forall>e\<in>set (published [t]). accepts (data e)"
    "\<forall>e\<in>set (published ts). accepts (data e)"
    by (simp_all add: published_Cons[of t ts])
  note st = subscribed_step[OF Cons.prems(1) t acc(1)]
  from Cons.prems have "Connect c \<notin> set ts" "Close c \<notin> set ts" by auto
  from Cons.IH[OF conjunct1[OF st] this acc(2)]
  have "sent (sockets (run accepts ts (step accepts t s)) c)
      = (sent (sockets s c) @ map event_msg (published [t])) @ map event_msg (published ts)"
    by (simp only: conjunct2[OF st])
  then show ?case
    by (simp add: run_Cons published_Cons[of t ts])
qed

lemma unconnected_step:
  assumes "server_inv accepts s" and "\<forall>l\<in>set (listeners s). call l \<noteq> handler accepts c"
    and "t \<noteq> Connect c" and "t \<noteq> Close c"
  shows "sockets (step accepts t s) c = sockets s c
       \<and> (\<forall>l\<in>set (listeners (step accepts t s)). call l \<noteq> handler accepts c)"
proof (cases t)
  case (Publish e)
  obtain u where u: "emitDashboard e s = emit (listeners s) e u" "sockets u = sockets s"
    using emitDashboard_emit by blast
  have "\<forall>l\<in>set (listeners s). \<exists>w. w \<noteq> c \<and> call l = handler accepts w"
    using assms(1,2) unfolding server_inv_def by metis
  from emit_others_untouched[OF this, of e u]
  have "sockets (fst (emitDashboard e s)) c = sockets s c" by (simp add: u)
  then show ?thesis using assms(2) Publish by (simp add: emitDashboard_frame)
next
  case (Connect w)
  with assms(3) have ne: "w \<noteq> c" by simp
  then have "handler accepts w \<noteq> handler accepts c"
    using handler_inj[of accepts w c] by blast
  then show ?thesis using assms(2) ne Connect
    by (cases "list_all (\<lambda>e. accepts (data e)) (retained s)")
       (auto simp add: connection_accepted connection_rejected)
next
  case (Close w)
  with assms(4) have ne: "w \<noteq> c" by simp
  have "set (fold removeListener (closeListeners (sockets s w)) (listeners s)) \<subseteq> set (listeners s)"
    by (rule fold_removeListener_subset)
  then show ?thesis using assms(2) ne Close by (auto simp add: close_eq)
qed

lemma unconnected_run:
  "server_inv accepts s \<Longrightarrow> \<forall>l\<in>set (listeners s). call l \<noteq> handler accepts c \<Longrightarrow>
   Connect c \<notin> set ts \<Longrightarrow> Close c \<notin> set ts \<Longrightarrow>
   sockets (run accepts ts s) c = sockets s c
   \<and> (\<forall>l\<in>set (listeners (run accepts ts s)). call l \<noteq> handler accepts c)"
proof (induction ts arbitrary: s)
  case Nil
  then show ?case by (simp add: run_Nil)
next
  case (Cons t ts)
  from Cons.prems have t: "t \<noteq> Connect c" "t \<noteq> Close c"
    and ts: "Connect c \<notin> set ts" "Close c \<notin> set ts" by auto
  note st = unconnected_step[OF Cons.prems(1,2) t]
  have inv: "server_inv accepts (step accepts t s)"
    using Cons.prems(1) by (rule server_inv_step)
  from Cons.IH[OF inv conjunct2[OF st] ts] show ?case
    by (simp add: run_Cons conjunct1[OF st])
qed

lemma closed_step:
  assumes "\<forall>l\<in>set (listeners s). \<exists>w. call l = handler accepts w"
    and "readyState (sockets s c) \<noteq> OPEN" and "t \<noteq> Connect c"
  shows "sent (sockets (step accepts t s) c) = sent (sockets s c)
       \<and> readyState (sockets (step accepts t s) c) \<noteq> OPEN
       \<and> (\<forall>l\<in>set (listeners (step accepts t s)). \<exists>w. call l = handler accepts w)"
proof (cases t)
  case (Publish e)
  obtain u where u: "emitDashboard e s = emit (listeners s) e u" "sockets u = sockets s"
    using emitDashboard_emit by blast
  have "readyState (sockets u c) \<noteq> OPEN" using assms(2) by (simp add: u)
  from emit_server_not_open[OF assms(1) this, of e]
  have a: "sent (sockets (fst (emitDashboard e s)) c) = sent (sockets s c)" by (simp add: u)
  have b: "readyState (sockets (fst (emitDashboard e s)) c) = readyState (sockets s c)"
    using emit_server_keeps[OF assms(1), of e u c] by (simp add: u)
  show ?thesis using assms Publish by (simp add: emitDashboard_frame a b)
next
  case (Connect w)
  with assms(3) have "w \<noteq> c" by simp
  then show ?thesis using assms Connect
    by (cases "list_all (\<lambda>e. accepts (data e)) (retained s)")
       (auto simp add: connection_accepted connection_rejected)
next
  case (Close w)
  have "set (fold removeListener (closeListeners (sockets s w)) (listeners s)) \<subseteq> set (listeners s)"
    by (rule fold_removeListener_subset)
  then have "\<forall>l\<in>set (listeners (close w s)). \<exists>w. call l = handler accepts w"
    using assms(1) by (auto simp add: close_eq)
  then show ?thesis using assms(2) Close by (simp add: close_eq)
qed

lemma closed_run:
  "\<forall>l\<in>set (listeners s). \<exists>w. call l = handler accepts w \<Longrightarrow> readyState (sockets s c) \<noteq> OPEN \<Longrightarrow>
   Connect c \<notin> set ts \<Longrightarrow> sent (sockets (run accepts ts s) c) = sent (sockets s c)"
proof (induction ts arbitrary: s)
  case Nil
  then show ?case by (simp add: run_Nil)
next
  case (Cons t ts)
  from Cons.prems(3) have t: "t \<noteq> Connect c" and ts: "Connect c \<notin> set ts" by auto
  note st = closed_step[OF Cons.prems(1,2) t]
  note a = st[THEN conjunct2, THEN conjunct2]
  note b = st[THEN conjunct2, THEN conjunct1]
  note c = st[THEN conjunct1]
  from Cons.IH[OF a b ts] show ?case by (simp add: run_Cons c)
qed

lemma unsubscribed_step:
  assumes "h < nextRef s" and "h \<notin> set (map fn_ref (listeners s))"
  shows "h < nextRef (step accepts t s) \<and> h \<notin> set (map fn_ref (listeners (step accepts t s)))
       \<and> (\<exists>new. invoked (step accepts t s) = invoked s @ new \<and> h \<notin> fst ` set new)"
proof (cases t)
  case (Publish e)
  obtain u where u: "emitDashboard e s = emit (listeners s) e u" "invoked u = invoked s"
    using emitDashboard_emit by blast
  from emit_invoked_prefix[of "listeners s" e u] obtain n where
    n: "n \<le> length (listeners s) \<and>
        invoked (fst (emit (listeners s) e u)) = invoked u @ map (\<lambda>l. (fn_ref l, e)) (take n (listeners s))" ..
  let ?new = "map (\<lambda>l. (fn_ref l, e)) (take n (listeners s))"
  have "fst ` set ?new \<subseteq> set (map fn_ref (listeners s))"
    using set_take_subset[of n "listeners s"] by auto
  with assms(2) have "h \<notin> fst ` set ?new" by blast
  moreover have "invoked (step accepts t s) = invoked s @ ?new"
    using n by (simp add: Publish u)
  ultimately have "\<exists>new. invoked (step accepts t s) = invoked s @ new \<and> h \<notin> fst ` set new" by blast
  then show ?thesis using assms Publish by (simp add: emitDashboard_frame)
next
  case (Connect w)
  have iv: "invoked (step accepts t s) = invoked s"
    by (cases "list_all (\<lambda>e. accepts (data e)) (retained s)")
       (simp_all add: Connect connection_accepted connection_rejected)
  then have "invoked (step accepts t s) = invoked s @ [] \<and> h \<notin> fst ` set ([] :: (ref \<times> 'a DashboardEvent) list)"
    by simp
  then have "\<exists>new. invoked (step accepts t s) = invoked s @ new \<and> h \<notin> fst ` set new" by blast
  then show ?thesis using assms Connect
    by (cases "list_all (\<lambda>e. accepts (data e)) (retained s)")
       (auto simp add: connection_accepted connection_rejected)
next
  case (Close w)
  have sub: "set (fold removeListener (closeListeners (sockets s w)) (listeners s)) \<subseteq> set (listeners s)"
    by (rule fold_removeListener_subset)
  have "invoked (step accepts t s) = invoked s @ [] \<and> h \<notin> fst ` set ([] :: (ref \<times> 'a DashboardEvent) list)"
    by (simp add: Close close_eq)
  then have "\<exists>new. invoked (step accepts t s) = invoked s @ new \<and> h \<notin> fst ` set new" by blast
  then show ?thesis using assms Close sub by (auto simp add: close_eq)
qed

lemma unsubscribed_run:
  "h < nextRef s \<Longrightarrow> h \<notin> set (map fn_ref (listeners s)) \<Longrightarrow>
   \<exists>new. invoked (run accepts ts s) = invoked s @ new \<and> h \<notin> fst ` set new"
proof (induction ts arbitrary: s)
  case Nil
  have "invoked (run accepts [] s) = invoked s @ [] \<and> h \<notin> fst ` set ([] :: (ref \<times> 'a DashboardEvent) list)"
    by (simp add: run_Nil)
  then show ?case by blast
next
  case (Cons t ts)
  note st = unsubscribed_step[OF Cons.prems, of accepts t]
  from st obtain new1 where n1: "invoked (step accepts t s) = invoked s @ new1" "h \<notin> fst ` set new1"
    by blast
  from st have "h < nextRef (step accepts t s)" "h \<notin> set (map fn_ref (listeners (step accepts t s)))"
    by blast+
  from Cons.IH[OF this] obtain new2 where
    n2: "invoked (run accepts ts (step accepts t s)) = invoked (step accepts t s) @ new2"
      "h \<notin> fst ` set new2" by blast
  have "invoked (run accepts (t # ts) s) = invoked s @ (new1 @ new2)"
    by (simp add: run_Cons n1 n2)
  moreover have "h \<notin> fst ` set (new1 @ new2)" using n1 n2 by auto
  ultimately show ?case by blast
qed

lemma step_checked:
  assumes "\<forall>l\<in>set (listeners s). \<exists>w. call l = handler accepts w"
    and "sends_checked is_live (ops (sockets s c))"
  shows "sends_checked is_live (ops (sockets (step accepts t s) c))"
proof (cases t)
  case (Publish e)
  obtain u where u: "emitDashboard e s = emit (listeners s) e u" "sockets u = sockets s"
    using emitDashboard_emit by blast
  have "sends_checked is_live (ops (sockets u c))" using assms(2) by (simp add: u)
  from emit_server_checked[OF assms(1) this, of e] show ?thesis by (simp add: Publish u)
next
  case (Connect w)
  show ?thesis using assms(2) Connect
    by (cases "list_all (\<lambda>e. accepts (data e)) (retained s)")
       (auto simp add: connection_accepted connection_rejected sends_checked_unselected)
next
  case (Close w)
  then show ?thesis using assms(2) by (auto simp add: close_eq)
qed

lemma run_checked:
  "server_inv accepts s \<Longrightarrow> sends_checked is_live (ops (sockets s c)) \<Longrightarrow>
   sends_checked is_live (ops (sockets (run accepts ts s) c))"
proof (induction ts arbitrary: s)
  case Nil
  then show ?case by (simp add: run_Nil)
next
  case (Cons t ts)
  have hs: "\<forall>l\<in>set (listeners s). \<exists>w. call l = handler accepts w"
    using Cons.prems(1) by (simp add: server_inv_def)
  have a: "server_inv accepts (step accepts t s)" using Cons.prems(1) by (rule server_inv_step)
  have b: "sends_checked is_live (ops (sockets (step accepts t s) c))"
    using hs Cons.prems(2) by (rule step_checked)
  from Cons.IH[OF a b] show ?case by (simp add: run_Cons)
qed



section \<open>Lemmas on chat identifiers\<close>

lemma of_char_digit: "d < 10 \<Longrightarrow> (of_char (digit_char d) :: nat) = 48 + d"
  by (simp add: digit_char_def)

lemma is_digit_digit_char: "d < 10 \<Longrightarrow> is_digit (digit_char d)"
  by (simp add: is_digit_def of_char_digit)

lemma digit_val_digit_char: "d < 10 \<Longrightarrow> digit_val (digit_char d) = d"
  by (simp add: digit_val_def of_char_digit)

lemma is_digit_plain:
  "is_digit c \<Longrightarrow> \<not> is_whitespace c \<and> c \<noteq> CHR ''-'' \<and> c \<noteq> CHR ''+'' \<and> c \<noteq> CHR ''@''"
  by (auto simp add: is_digit_def is_whitespace_def)

lemma digits_all: "\<forall>c\<in>set (digits n). is_digit c"
proof (induction n rule: digits.induct)
  case (1 n)
  show ?case
  proof (cases "n < 10")
    case True
    then show ?thesis by (simp add: digits.simps[of n] is_digit_digit_char)
  next
    case False
    with 1 have "\<forall>c\<in>set (digits (n div 10)). is_digit c" by simp
    then show ?thesis using False by (simp add: digits.simps[of n] is_digit_digit_char)
  qed
qed

lemma digits_nonempty: "digits n \<noteq> []"
  by (simp add: digits.simps[of n])

lemma digits_value: "foldl (\<lambda>a c. 10 * a + digit_val c) 0 (digits n) = n"
proof (induction n rule: digits.induct)
  case (1 n)
  show ?case
  proof (cases "n < 10")
    case True
    then show ?thesis by (simp add: digits.simps[of n] digit_val_digit_char)
  next
    case False
    with 1 have "foldl (\<lambda>a c. 10 * a + digit_val c) 0 (digits (n div 10)) = n div 10" by simp
    then show ?thesis using False by (simp add: digits.simps[of n] digit_val_digit_char)
  qed
qed

lemma parseInt_digits:
  assumes "Z \<noteq> []" and "\<forall>c\<in>set Z. is_digit c"
  shows "parseInt Z = Some (int (foldl (\<lambda>a c. 10 * a + digit_val c) 0 Z))"
    and "parseInt (CHR ''-'' # Z) = Some (- int (foldl (\<lambda>a c. 10 * a + digit_val c) 0 Z))"
proof -
  from assms obtain c r where Z: "Z = c # r" by (cases Z) auto
  with assms(2) have c: "is_digit c" by simp
  note p = is_digit_plain[OF c]
  have tw: "takeWhile is_digit Z = Z" using assms(2) by (simp add: takeWhile_eq_all_conv)
  have dw: "dropWhile is_whitespace Z = Z" using p by (simp add: Z)
  have sg: "(case Z of c # _ \<Rightarrow> if c = CHR ''-'' then - 1 else 1 | [] \<Rightarrow> (1 :: int)) = 1"
    using p by (simp add: Z)
  have rest: "(case Z of c # r \<Rightarrow> if c = CHR ''-'' \<or> c = CHR ''+'' then r else Z | [] \<Rightarrow> []) = Z"
    using p by (simp add: Z)
  show "parseInt Z = Some (int (foldl (\<lambda>a c. 10 * a + digit_val c) 0 Z))"
    unfolding parseInt_def Let_def dw sg rest tw using assms(1) by simp
  have m: "\<not> is_whitespace CHR ''-''" by (simp add: is_whitespace_def)
  have dw': "dropWhile is_whitespace (CHR ''-'' # Z) = CHR ''-'' # Z" using m by simp
  show "parseInt (CHR ''-'' # Z) = Some (- int (foldl (\<lambda>a c. 10 * a + digit_val c) 0 Z))"
    unfolding parseInt_def dw' using assms(1) by (simp add: tw Let_def)
qed

lemma parseInt_number_toString: "parseInt (number_toString n) = Some n"
proof (cases "n < 0")
  case True
  then show ?thesis
    using parseInt_digits(2)[OF digits_nonempty digits_all, of "nat (- n)"]
    by (simp add: number_toString_def digits_value)
next
  case False
  then show ?thesis
    using parseInt_digits(1)[OF digits_nonempty digits_all, of "nat n"]
    by (simp add: number_toString_def digits_value)
qed

lemma number_toString_no_at: "CHR ''@'' \<notin> set (number_toString n)"
proof -
  have "c \<noteq> CHR ''@''" if "c \<in> set (digits m)" for c m
    using that digits_all[of m] is_digit_plain[of c] by blast
  then have "CHR ''@'' \<notin> set (digits m)" for m by blast
  then show ?thesis by (simp add: number_toString_def)
qed

lemma replace_suffix:
  "CHR ''@'' \<notin> set xs \<Longrightarrow> replace (xs @ ''@telegram'') ''@telegram'' [] = xs"
proof (induction xs)
  case Nil
  show ?case by simp
next
  case (Cons a xs)
  then have "a \<noteq> CHR ''@''" by auto
  then have "take (length ''@telegram'') (a # xs @ ''@telegram'') \<noteq> ''@telegram''"
    by simp
  then have "replace ((a # xs) @ ''@telegram'') ''@telegram'' [] = a # replace (xs @ ''@telegram'') ''@telegram'' []"
    by (simp only: append_Cons replace.simps if_False)
  with Cons show ?case by simp
qed

lemma endsWith_append: "endsWith (xs @ ys) ys"
  by (simp add: endsWith_def)

section \<open>Claims\<close>

text \<open>
  C1, as stated, fails: when the payload of a retained event is one that
  \<^verbatim>\<open>JSON.stringify\<close> rejects, the connection callback throws before the history is
  sent and before the handler is registered. The connection, opened after one event was
  published, gets no history frame, and it gets no frame for the event published next.
\<close>

theorem history_without_subscription_counterexample:
  "snd (connection serialisable 7 (publish_all [bigint_event ''e1''] (open_socket 7 dashboardEvents)))
     = Some (Thrown ''TypeError'')
   \<and> sent (sockets (run serialisable [Publish (msg_event ''e2'')]
        (fst (connection serialisable 7
           (publish_all [bigint_event ''e1''] (open_socket 7 dashboardEvents))))) 7) = []"
proof -
  let ?s = "publish_all [bigint_event ''e1''] (open_socket 7 (dashboardEvents :: payload state))"
  have r: "retained ?s = [bigint_event ''e1'']"
    using publish_all_retained [of "open_socket 7 dashboardEvents" "[bigint_event ''e1'']"]
    by (simp add: open_socket_def dashboardEvents_def)
  have rej: "\<not> list_all (\<lambda>e. serialisable (data e)) (retained ?s)"
    unfolding r by (simp add: bigint_event_def)
  have ls: "listeners ?s = []"
    by (simp add: publish_all_frame open_socket_def dashboardEvents_def)
  have so: "sockets ?s = sockets (open_socket 7 dashboardEvents)"
    by (simp add: publish_all_def emitDashboard_def Let_def push_def shift_def open_socket_def
        dashboardEvents_def)
  have a: "snd (connection serialisable 7 ?s) = Some (Thrown ''TypeError'')"
    by (simp add: connection_rejected[OF rej])
  let ?t = "fst (connection serialisable 7 ?s)"
  have lt: "listeners ?t = []" and st: "sockets ?t = sockets (open_socket 7 dashboardEvents)"
    by (simp_all add: connection_rejected[OF rej] ls so)
  obtain u where u: "emitDashboard (msg_event ''e2'') ?t = emit (listeners ?t) (msg_event ''e2'') u"
      "sockets u = sockets ?t"
    using emitDashboard_emit by blast
  have "sockets (fst (emitDashboard (msg_event ''e2'') ?t)) = sockets (open_socket 7 dashboardEvents)"
    unfolding u(1) lt by (simp add: u(2) st)
  then have "sent (sockets (run serialisable [Publish (msg_event ''e2'')] ?t) 7) = []"
    by (simp add: run_Cons run_Nil open_socket_def)
  with a show ?thesis by simp
qed

text \<open>
  C1, amended. A connection is opened on a fresh open socket \<open>c\<close> of a server whose
  subscribers are connection handlers, after the tasks \<open>ts0\<close> have run, and
  \<^verbatim>\<open>JSON.stringify\<close> accepts the payload of every event retained or published.
  Whatever tasks \<open>ts\<close> run afterwards, short of closing \<open>c\<close>, the messages sent to
  \<open>c\<close> are one history frame holding the retained events of the connect point, which
  are exactly the events published before it when these fit the capacity, followed by one
  event frame for every event published after the connect, in publish order; so when the
  events are pairwise different none of them is both in the history and delivered live.
  On a state with a retained payload that \<^verbatim>\<open>JSON.stringify\<close> rejects, the connection
  callback throws and leaves the sockets and the listeners as they were.
\<close>

theorem connection_history_then_live:
  assumes "server_inv accepts s"
    and "\<forall>l\<in>set (listeners s). call l \<noteq> handler accepts c"
    and "readyState (sockets s c) = OPEN" and "sent (sockets s c) = []"
    and "Connect c \<notin> set ts0" and "Close c \<notin> set ts0"
    and "Connect c \<notin> set ts" and "Close c \<notin> set ts"
    and "\<forall>e\<in>set (retained s @ published ts0 @ published ts). accepts (data e)"
  shows "sent (sockets (run accepts ts (fst (connection accepts c (run accepts ts0 s)))) c)
           = history_msg (drop (length (retained s @ published ts0) - maxEvents s)
                            (retained s @ published ts0))
             # map event_msg (published ts)
       \<and> (retained s = [] \<and> length (published ts0) \<le> maxEvents s \<longrightarrow>
            sent (sockets (run accepts ts (fst (connection accepts c (run accepts ts0 s)))) c)
              = history_msg (published ts0) # map event_msg (published ts))
       \<and> (distinct (retained s @ published ts0 @ published ts) \<longrightarrow>
            (\<forall>e\<in>set (retained s @ published ts0).
               event_msg e \<notin> set (sent (sockets
                  (run accepts ts (fst (connection accepts c (run accepts ts0 s)))) c))))
       \<and> (\<not> list_all (\<lambda>e. accepts (data e)) (retained u) \<longrightarrow>
            snd (connection accepts c u) = Some (Thrown ''TypeError'')
            \<and> sockets (fst (connection accepts c u)) = sockets u
            \<and> listeners (fst (connection accepts c u)) = listeners u)"
proof -
  let ?s1 = "run accepts ts0 s"
  let ?s2 = "fst (connection accepts c ?s1)"
  let ?h = "Suc (nextRef ?s1)"
  let ?hist = "drop (length (retained s @ published ts0) - maxEvents s) (retained s @ published ts0)"
  have inv1: "server_inv accepts ?s1" using assms(1) by (rule server_inv_run)
  note un = unconnected_run[OF assms(1,2,5,6)]
  have sock: "sockets ?s1 c = sockets s c" using un by (rule conjunct1)
  have fresh: "\<forall>l\<in>set (listeners ?s1). call l \<noteq> handler accepts c" using un by (rule conjunct2)
  have others: "\<forall>l\<in>set (listeners ?s1). \<exists>w. w \<noteq> c \<and> call l = handler accepts w"
    using inv1 fresh unfolding server_inv_def by metis
  have ret: "retained ?s1 = ?hist" using assms(1) by (rule run_retained)
  have "set ?hist \<subseteq> set (retained s @ published ts0)" by (rule set_drop_subset)
  then have acc: "list_all (\<lambda>e. accepts (data e)) (retained ?s1)"
    using assms(9) unfolding ret list_all_iff by auto
  note conn = connection_accepted[OF acc, of c]
  have old: "\<forall>l\<in>set (listeners ?s1). fn_ref l < nextRef ?s1"
    using inv1 by (simp add: server_inv_def)
  then have nomatch: "filter (\<lambda>l. fn_ref l = ?h) (listeners ?s1) = []"
    by (auto simp: filter_empty_conv)
  have cl: "\<forall>w. \<forall>k\<in>set (closeListeners (sockets ?s1 w)). k < nextRef ?s1"
    using inv1 by (simp add: server_inv_def)
  then have cl': "\<forall>w. ?h \<notin> set (closeListeners (sockets ?s1 w))"
    by fastforce
  have sub: "subscribed accepts ?h c ?s2"
    unfolding subscribed_def
  proof (intro conjI)
    show "?h < nextRef ?s2" by (simp add: conn)
    show "length (filter (\<lambda>l. fn_ref l = ?h) (listeners ?s2)) = 1"
      by (simp add: conn nomatch)
    show "\<forall>l\<in>set (listeners ?s2). (fn_ref l = ?h \<longrightarrow> call l = handler accepts c) \<and>
        (fn_ref l \<noteq> ?h \<longrightarrow> (\<exists>w. w \<noteq> c \<and> call l = handler accepts w))"
      using others old by (auto simp add: conn)
    show "\<forall>w. w \<noteq> c \<longrightarrow> ?h \<notin> set (closeListeners (sockets ?s2 w))"
      using cl' by (simp add: conn)
    show "readyState (sockets ?s2 c) = OPEN"
      using assms(3) by (simp add: conn sock)
  qed
  have first: "sent (sockets ?s2 c) = [history_msg ?hist]"
    using assms(4) by (simp add: conn sock ret)
  have acc2: "\<forall>e\<in>set (published ts). accepts (data e)" using assms(9) by simp
  have "sent (sockets (run accepts ts ?s2) c) = sent (sockets ?s2 c) @ map event_msg (published ts)"
    using sub assms(7,8) acc2 by (rule subscribed_run)
  then have c1: "sent (sockets (run accepts ts ?s2) c) = history_msg ?hist # map event_msg (published ts)"
    by (simp add: first)
  have c2: "retained s = [] \<and> length (published ts0) \<le> maxEvents s \<longrightarrow>
      sent (sockets (run accepts ts ?s2) c) = history_msg (published ts0) # map event_msg (published ts)"
    unfolding c1 by simp
  have c3: "distinct (retained s @ published ts0 @ published ts) \<longrightarrow>
      (\<forall>e\<in>set (retained s @ published ts0). event_msg e \<notin> set (sent (sockets (run accepts ts ?s2) c)))"
    unfolding c1 by auto
  have c4: "\<not> list_all (\<lambda>e. accepts (data e)) (retained u) \<longrightarrow>
      snd (connection accepts c u) = Some (Thrown ''TypeError'')
      \<and> sockets (fst (connection accepts c u)) = sockets u
      \<and> listeners (fst (connection accepts c u)) = listeners u"
    by (simp add: connection_rejected)
  from c1 c2 c3 c4 show ?thesis by (intro conjI)
qed

theorem connection_history_then_live_witness:
  "sent (sockets (run serialisable
           [Publish (msg_event ''e3''), Connect 9, Publish (msg_event ''e4''), Close 8,
            Publish (msg_event ''e5'')]
           (fst (connection serialisable 7 (run serialisable
              [Publish (msg_event ''e1''), Connect 8, Publish (msg_event ''e2'')]
              (open_socket 9 (open_socket 8 (open_socket 7 dashboardEvents))))))) 7)
     = [history_msg [msg_event ''e1'', msg_event ''e2''], event_msg (msg_event ''e3''),
        event_msg (msg_event ''e4''), event_msg (msg_event ''e5'')]"
proof -
  let ?s = "open_socket 9 (open_socket 8 (open_socket 7 (dashboardEvents :: payload state)))"
  have 1: "server_inv serialisable ?s"
    by (simp add: server_inv_def open_socket_def dashboardEvents_def)
  have 2: "\<forall>l\<in>set (listeners ?s). call l \<noteq> handler serialisable 7"
    "readyState (sockets ?s 7) = OPEN" "sent (sockets ?s 7) = []"
    by (simp_all add: open_socket_def dashboardEvents_def)
  have 3: "Connect 7 \<notin> set [Publish (msg_event ''e1''), Connect 8, Publish (msg_event ''e2'')]"
    "Close 7 \<notin> set [Publish (msg_event ''e1''), Connect 8, Publish (msg_event ''e2'')]"
    "Connect 7 \<notin> set [Publish (msg_event ''e3''), Connect 9, Publish (msg_event ''e4''), Close 8,
            Publish (msg_event ''e5'')]"
    "Close 7 \<notin> set [Publish (msg_event ''e3''), Connect 9, Publish (msg_event ''e4''), Close 8,
            Publish (msg_event ''e5'')]"
    by simp_all
  have r: "retained ?s = []" "maxEvents ?s = 100"
    by (simp_all add: open_socket_def dashboardEvents_def)
  have 4: "\<forall>e\<in>set (retained ?s @ published [Publish (msg_event ''e1''), Connect 8, Publish (msg_event ''e2'')]
      @ published [Publish (msg_event ''e3''), Connect 9, Publish (msg_event ''e4''), Close 8,
            Publish (msg_event ''e5'')]). serialisable (data e)"
    by (simp add: r msg_event_def)
  from connection_history_then_live [OF 1 2 3 4]
  show ?thesis by (simp add: r)
qed

text \<open>
  C2. Starting from an empty retained history, after any sequence \<open>es\<close> of published
  events \<open>getRecentEvents\<close> returns exactly the last \<open>min (length es) capacity\<close> of
  them in publish order; the retained history never holds more than \<open>capacity\<close>
  events; a publish into a full history evicts exactly the oldest event and a publish
  into a history with room appends without evicting; the capacity of the emitter the
  module creates is 100.
\<close>

theorem retained_history_bounded_fifo:
  assumes "retained s = []"
  shows "heap (snd (getRecentEvents (publish_all es s))) (fst (getRecentEvents (publish_all es s)))
           = drop (length es - min (length es) (maxEvents s)) es
       \<and> length (retained (publish_all es s)) \<le> maxEvents s
       \<and> (length (retained (publish_all es s)) = maxEvents s \<and> 0 < maxEvents s \<longrightarrow>
            retained (fst (emitDashboard e (publish_all es s))) = tl (retained (publish_all es s)) @ [e])
       \<and> (length (retained (publish_all es s)) < maxEvents s \<longrightarrow>
            retained (fst (emitDashboard e (publish_all es s))) = retained (publish_all es s) @ [e])
       \<and> maxEvents (dashboardEvents :: 'd state) = 100
       \<and> retained (dashboardEvents :: 'd state) = []"
proof -
  let ?t = "publish_all es s"
  have r: "retained ?t = drop (length es - maxEvents s) es"
    using publish_all_retained[of s es] assms by simp
  have fr: "recentEvents (fst (emitDashboard e ?t)) = recentEvents ?t"
    by (simp add: emitDashboard_frame)
  have c1: "heap (snd (getRecentEvents ?t)) (fst (getRecentEvents ?t))
              = drop (length es - min (length es) (maxEvents s)) es"
    by (simp add: getRecentEvents_copy r min_def)
  have c2: "length (retained ?t) \<le> maxEvents s"
    by (simp add: r)
  have c3: "length (retained ?t) = maxEvents s \<and> 0 < maxEvents s \<longrightarrow>
            retained (fst (emitDashboard e ?t)) = tl (retained ?t) @ [e]"
  proof
    assume a: "length (retained ?t) = maxEvents s \<and> 0 < maxEvents s"
    then have "retained ?t \<noteq> []" by auto
    then have "tl (retained ?t @ [e]) = tl (retained ?t) @ [e]" by simp
    with a show "retained (fst (emitDashboard e ?t)) = tl (retained ?t) @ [e]"
      by (simp add: fr emitDashboard_heap publish_all_frame)
  qed
  have c4: "length (retained ?t) < maxEvents s \<longrightarrow>
            retained (fst (emitDashboard e ?t)) = retained ?t @ [e]"
    by (simp add: fr emitDashboard_heap publish_all_frame)
  have c5: "maxEvents (dashboardEvents :: 'd state) = 100 \<and> retained (dashboardEvents :: 'd state) = []"
    by (simp add: dashboardEvents_def)
  from c1 c2 c3 c4 c5 show ?thesis by blast
qed

theorem retained_history_bounded_fifo_witness:
  "heap (snd (getRecentEvents (publish_all
       [msg_event ''e1'', msg_event ''e2'', msg_event ''e3'', msg_event ''e4'', msg_event ''e5'']
       (dashboardEvents\<lparr>maxEvents := 3\<rparr>))))
     (fst (getRecentEvents (publish_all
       [msg_event ''e1'', msg_event ''e2'', msg_event ''e3'', msg_event ''e4'', msg_event ''e5'']
       (dashboardEvents\<lparr>maxEvents := 3\<rparr>))))
   = [msg_event ''e3'', msg_event ''e4'', msg_event ''e5'']"
  using retained_history_bounded_fifo [of "dashboardEvents\<lparr>maxEvents := 3\<rparr>"
      "[msg_event ''e1'', msg_event ''e2'', msg_event ''e3'', msg_event ''e4'', msg_event ''e5'']"]
  by (simp add: dashboardEvents_def)




text \<open>
  C4, as stated, fails: the history frame is sent on connect with no check of the
  socket. For a socket that is open when the connection callback runs, the first
  operation of the server on it is the \<^verbatim>\<open>send\<close> of the history frame, with no read
  of \<open>readyState\<close> before it.
\<close>

theorem history_send_unchecked_counterexample:
  "readyState (sockets (open_socket 7 (dashboardEvents :: payload state)) 7) = OPEN
   \<and> ops (sockets (fst (connection serialisable 7 (open_socket 7 dashboardEvents))) 7)
       = [SendCall (history_msg [])]
   \<and> \<not> every_send_checked
         (ops (sockets (fst (connection serialisable 7 (open_socket 7 dashboardEvents))) 7))"
proof -
  have acc: "list_all (\<lambda>e. serialisable (data e)) (retained (open_socket 7 (dashboardEvents :: payload state)))"
    by (simp add: open_socket_def dashboardEvents_def)
  have a: "readyState (sockets (open_socket 7 (dashboardEvents :: payload state)) 7) = OPEN"
    by (simp add: open_socket_def)
  have b: "ops (sockets (fst (connection serialisable 7 (open_socket 7 dashboardEvents))) 7)
       = [SendCall (history_msg [])]"
    unfolding connection_accepted[OF acc] by (simp add: open_socket_def dashboardEvents_def)
  have c: "\<not> every_send_checked [SendCall (history_msg ([] :: payload DashboardEvent list))]"
    by (simp add: every_send_checked_def sends_checked_def)
  from a b c show ?thesis by simp
qed

text \<open>
  C4, amended. On a server whose subscribers are connection handlers, in every run each
  \<^verbatim>\<open>send\<close> of an event frame comes immediately after a read of \<open>readyState\<close>
  that found \<open>OPEN\<close>. When the socket is not open the live send is dropped and no
  error is raised: a publish leaves what was sent to that socket as it was, the handler
  returns normally whatever the payload, and a publish to sockets none of which is open
  returns normally. The history frame is sent on connect with no check before it.
\<close>

theorem live_sends_guarded_by_open_check:
  assumes "server_inv accepts s" and "live_sends_checked (ops (sockets s c))"
  shows "live_sends_checked (ops (sockets (run accepts ts s) c))
       \<and> (readyState (sockets s c) \<noteq> OPEN \<longrightarrow>
            sent (sockets (fst (emitDashboard e s)) c) = sent (sockets s c))
       \<and> (readyState (w c) \<noteq> OPEN \<longrightarrow>
            snd (handler accepts c e w) = None \<and> sent (fst (handler accepts c e w) c) = sent (w c))
       \<and> ((\<forall>c. readyState (sockets s c) \<noteq> OPEN) \<longrightarrow> snd (emitDashboard e s) = None)
       \<and> (list_all (\<lambda>e. accepts (data e)) (retained s) \<longrightarrow>
            ops (sockets (fst (connection accepts c s)) c)
              = ops (sockets s c) @ [SendCall (history_msg (retained s))])"
proof -
  have hs: "\<forall>l\<in>set (listeners s). \<exists>w. call l = handler accepts w"
    using assms(1) by (simp add: server_inv_def)
  obtain t where t: "emitDashboard e s = emit (listeners s) e t" "sockets t = sockets s"
    using emitDashboard_emit by blast
  have c1: "live_sends_checked (ops (sockets (run accepts ts s) c))"
    using run_checked[OF assms(1), of c ts] assms(2) by (simp add: live_sends_checked_def)
  have c2: "readyState (sockets s c) \<noteq> OPEN \<longrightarrow>
      sent (sockets (fst (emitDashboard e s)) c) = sent (sockets s c)"
    using emit_server_not_open[OF hs, of t c e] by (simp add: t)
  have c3: "readyState (w c) \<noteq> OPEN \<longrightarrow>
      snd (handler accepts c e w) = None \<and> sent (fst (handler accepts c e w) c) = sent (w c)"
    by (simp add: handler_not_open)
  have c4: "(\<forall>c. readyState (sockets s c) \<noteq> OPEN) \<longrightarrow> snd (emitDashboard e s) = None"
    using emit_all_closed[OF hs, of t e] by (simp add: t)
  have c5: "list_all (\<lambda>e. accepts (data e)) (retained s) \<longrightarrow>
      ops (sockets (fst (connection accepts c s)) c)
        = ops (sockets s c) @ [SendCall (history_msg (retained s))]"
    by (simp add: connection_accepted)
  from c1 c2 c3 c4 c5 show ?thesis by (intro conjI)
qed

theorem live_sends_guarded_by_open_check_witness:
  "live_sends_checked (ops (sockets
      (run serialisable [Publish (msg_event ''e1''), Close 7, Publish (bigint_event ''e2'')]
         (fst (connection serialisable 7 (open_socket 7 dashboardEvents)))) 7))
   \<and> ops (sockets
      (run serialisable [Publish (msg_event ''e1''), Close 7, Publish (bigint_event ''e2'')]
         (fst (connection serialisable 7 (open_socket 7 dashboardEvents)))) 7)
     = [SendCall (history_msg []), ReadyStateRead OPEN, SendCall (event_msg (msg_event ''e1''))]
   \<and> snd (emitDashboard (bigint_event ''e2'')
        (closing_socket 7 (fst (connection serialisable 7 (open_socket 7 dashboardEvents))))) = None
   \<and> sent (sockets (fst (emitDashboard (bigint_event ''e2'')
        (closing_socket 7 (fst (connection serialisable 7 (open_socket 7 dashboardEvents)))))) 7)
     = [history_msg []]"
proof -
  let ?a = "fst (connection serialisable 7 (open_socket 7 (dashboardEvents :: payload state)))"
  let ?b = "closing_socket 7 ?a"
  have acc: "list_all (\<lambda>e. serialisable (data e)) (retained (open_socket 7 (dashboardEvents :: payload state)))"
    by (simp add: open_socket_def dashboardEvents_def)
  have "server_inv serialisable (open_socket 7 (dashboardEvents :: payload state))"
    by (simp add: server_inv_def open_socket_def dashboardEvents_def)
  then have 1: "server_inv serialisable ?a" by (rule server_inv_connection)
  have 2: "live_sends_checked (ops (sockets ?a 7))"
    unfolding connection_accepted[OF acc]
    by (simp add: live_sends_checked_def sends_checked_def open_socket_def dashboardEvents_def)
  have 3: "ops (sockets
      (run serialisable [Publish (msg_event ''e1''), Close 7, Publish (bigint_event ''e2'')] ?a) 7)
     = [SendCall (history_msg []), ReadyStateRead OPEN, SendCall (event_msg (msg_event ''e1''))]"
    unfolding connection_accepted[OF acc]
    by (simp add: run_def emitDashboard_def Let_def push_def shift_def emit_step close_eq
        handler_def ws_readyState_def ws_send_def stringify_def open_socket_def dashboardEvents_def
        msg_event_def bigint_event_def)
  have 4: "server_inv serialisable ?b"
    using 1 by (simp add: server_inv_def closing_socket_def)
  have 5: "live_sends_checked (ops (sockets ?b 7))"
    using 2 by (simp add: closing_socket_def)
  have 6: "\<forall>c. readyState (sockets ?b c) \<noteq> OPEN" "sent (sockets ?b 7) = [history_msg []]"
    unfolding connection_accepted[OF acc]
    by (simp_all add: closing_socket_def open_socket_def dashboardEvents_def)
  note open_run = live_sends_guarded_by_open_check [OF 1 2,
      of "[Publish (msg_event ''e1''), Close 7, Publish (bigint_event ''e2'')]"]
  note closing = live_sends_guarded_by_open_check [OF 4 5, of _ "bigint_event ''e2''"]
  have a: "live_sends_checked (ops (sockets
      (run serialisable [Publish (msg_event ''e1''), Close 7, Publish (bigint_event ''e2'')] ?a) 7))"
    using open_run by (rule conjunct1)
  have b: "sent (sockets (fst (emitDashboard (bigint_event ''e2'') ?b)) 7) = sent (sockets ?b 7)"
    using closing[THEN conjunct2, THEN conjunct1] 6(1) by simp
  have c: "snd (emitDashboard (bigint_event ''e2'') ?b) = None"
    using closing[THEN conjunct2, THEN conjunct2, THEN conjunct2, THEN conjunct1] 6(1) by (rule mp)
  from a 3 b c 6(2) show ?thesis by simp
qed




text \<open>
  C6, as stated, fails: a callback that throws ends the fan-out, and the callbacks
  registered after it are not invoked for that event.
\<close>

theorem fan_out_stops_at_throw_counterexample:
  "listeners (fst (connection serialisable 7 (on (failing_listener 1) (open_socket 7 dashboardEvents))))
     = [failing_listener 1, \<lparr>fn_ref = 2, call = handler serialisable 7\<rparr>]
   \<and> invoked (fst (emitDashboard (msg_event ''e1'')
         (fst (connection serialisable 7 (on (failing_listener 1) (open_socket 7 dashboardEvents))))))
     = [(1, msg_event ''e1'')]"
proof -
  let ?s = "on (failing_listener 1) (open_socket 7 (dashboardEvents :: payload state))"
  have acc: "list_all (\<lambda>e. serialisable (data e)) (retained ?s)"
    by (simp add: on_def open_socket_def dashboardEvents_def)
  show ?thesis
    unfolding connection_accepted[OF acc]
    by (simp add: emitDashboard_def Let_def push_def shift_def on_def failing_listener_def
        emit_step open_socket_def dashboardEvents_def)
qed

text \<open>
  C6, amended. On each publish the callbacks invoked are the first \<open>k\<close> registered
  ones, in registration order, each once, with the published event. Every one of them
  but the last returns normally, and what the last one does is what the publish does:
  when the publish returns normally all registered callbacks have been invoked, and when
  it throws \<open>x\<close> the \<open>k\<close>-th callback is the first that throws, it throws \<open>x\<close>,
  and no callback after it is invoked. Registering a callback, directly or by opening a
  connection, invokes nothing: a callback sees only the events published after its
  registration.
\<close>

theorem fan_out_in_registration_order:
  "(\<exists>k\<le>length (listeners s).
       invoked (fst (emitDashboard e s)) = invoked s @ map (\<lambda>l. (fn_ref l, e)) (take k (listeners s))
     \<and> (snd (emitDashboard e s) = None \<longrightarrow> k = length (listeners s))
     \<and> (\<forall>x. snd (emitDashboard e s) = Some x \<longrightarrow> 0 < k)
     \<and> (\<forall>i<k. snd (call (listeners s ! i) e
                   (sockets (fst (emitDashboard e (s\<lparr>listeners := take i (listeners s)\<rparr>)))))
               = (if Suc i < k then None else snd (emitDashboard e s))))
   \<and> invoked (on l s) = invoked s \<and> sockets (on l s) = sockets s
   \<and> listeners (on l s) = listeners s @ [l]
   \<and> invoked (fst (connection accepts c s)) = invoked s"
proof -
  obtain t where t: "emitDashboard e s = emit (listeners s) e t" "sockets t = sockets s"
      "invoked t = invoked s"
    using emitDashboard_emit by blast
  have restricted: "sockets (fst (emitDashboard e (s\<lparr>listeners := L\<rparr>))) = sockets (fst (emit L e t))" for L
  proof -
    obtain u where u: "emitDashboard e (s\<lparr>listeners := L\<rparr>) = emit (listeners (s\<lparr>listeners := L\<rparr>)) e u"
        "sockets u = sockets (s\<lparr>listeners := L\<rparr>)" "invoked u = invoked (s\<lparr>listeners := L\<rparr>)"
      using emitDashboard_emit by blast
    have "sockets u = sockets t" "invoked u = invoked t" using u(2,3) t(2,3) by simp_all
    from emit_depends[OF this, of L e] show ?thesis by (simp add: u(1))
  qed
  from emit_outcomes[of "listeners s" e t] obtain k where
    k: "k \<le> length (listeners s) \<and>
      invoked (fst (emit (listeners s) e t)) = invoked t @ map (\<lambda>l. (fn_ref l, e)) (take k (listeners s)) \<and>
      (snd (emit (listeners s) e t) = None \<longrightarrow> k = length (listeners s)) \<and>
      (\<forall>x. snd (emit (listeners s) e t) = Some x \<longrightarrow> 0 < k) \<and>
      (\<forall>i<k. snd (call (listeners s ! i) e (sockets (fst (emit (take i (listeners s)) e t))))
               = (if Suc i < k then None else snd (emit (listeners s) e t)))" ..
  have a: "k \<le> length (listeners s)" using k by (rule conjunct1)
  have b: "invoked (fst (emitDashboard e s)) = invoked s @ map (\<lambda>l. (fn_ref l, e)) (take k (listeners s))"
    using k[THEN conjunct2, THEN conjunct1] by (simp only: t)
  have c: "snd (emitDashboard e s) = None \<longrightarrow> k = length (listeners s)"
    using k[THEN conjunct2, THEN conjunct2, THEN conjunct1] by (simp only: t)
  have d: "\<forall>x. snd (emitDashboard e s) = Some x \<longrightarrow> 0 < k"
    using k[THEN conjunct2, THEN conjunct2, THEN conjunct2, THEN conjunct1] by (simp only: t)
  have f: "\<forall>i<k. snd (call (listeners s ! i) e
                   (sockets (fst (emitDashboard e (s\<lparr>listeners := take i (listeners s)\<rparr>)))))
               = (if Suc i < k then None else snd (emitDashboard e s))"
    using k[THEN conjunct2, THEN conjunct2, THEN conjunct2, THEN conjunct2]
    by (simp only: t restricted)
  have c1: "\<exists>k\<le>length (listeners s).
       invoked (fst (emitDashboard e s)) = invoked s @ map (\<lambda>l. (fn_ref l, e)) (take k (listeners s))
     \<and> (snd (emitDashboard e s) = None \<longrightarrow> k = length (listeners s))
     \<and> (\<forall>x. snd (emitDashboard e s) = Some x \<longrightarrow> 0 < k)
     \<and> (\<forall>i<k. snd (call (listeners s ! i) e
                   (sockets (fst (emitDashboard e (s\<lparr>listeners := take i (listeners s)\<rparr>)))))
               = (if Suc i < k then None else snd (emitDashboard e s)))"
    by (rule exI[of _ k], rule conjI, rule a, rule conjI, rule b, rule conjI, rule c, rule conjI,
        rule d, rule f)
  have c3: "invoked (on l s) = invoked s" "sockets (on l s) = sockets s"
      "listeners (on l s) = listeners s @ [l]"
    by (simp_all add: on_def)
  have c4: "invoked (fst (connection accepts c s)) = invoked s"
    by (cases "list_all (\<lambda>e. accepts (data e)) (retained s)")
       (simp_all add: connection_accepted connection_rejected)
  from c1 c3 c4 show ?thesis by (intro conjI)
qed

theorem fan_out_in_registration_order_witness:
  "invoked (fst (emitDashboard (msg_event ''e1'')
       (fst (connection serialisable 8 (fst (connection serialisable 7 dashboardEvents))))))
     = [(2, msg_event ''e1''), (4, msg_event ''e1'')]
   \<and> invoked (fst (emitDashboard (msg_event ''e1'')
         (fst (connection serialisable 7 (on (failing_listener 1) (open_socket 7 dashboardEvents))))))
     = [(1, msg_event ''e1'')]"
proof -
  let ?e = "msg_event ''e1''"
  let ?a = "fst (connection serialisable 7 (dashboardEvents :: payload state))"
  let ?b = "fst (connection serialisable 8 ?a)"
  have acc: "list_all (\<lambda>e. serialisable (data e)) (retained (dashboardEvents :: payload state))"
    by (simp add: dashboardEvents_def)
  have a: "listeners ?a = [\<lparr>fn_ref = 2, call = handler serialisable 7\<rparr>]" "nextRef ?a = 3"
    "invoked ?a = []" "retained ?a = []"
    unfolding connection_accepted[OF acc] by (simp_all add: dashboardEvents_def)
  have acc2: "list_all (\<lambda>e. serialisable (data e)) (retained ?a)" by (simp add: a)
  have b: "listeners ?b = [\<lparr>fn_ref = 2, call = handler serialisable 7\<rparr>,
      \<lparr>fn_ref = 4, call = handler serialisable 8\<rparr>]" "invoked ?b = []"
    unfolding connection_accepted[OF acc2] by (simp_all add: a)
  have "\<forall>l\<in>set (listeners ?b). \<forall>w. snd (call l ?e w) = None"
    by (simp add: b handler_returns msg_event_def)
  then have ret: "snd (emitDashboard ?e ?b) = None"
    by (rule emitDashboard_returns)
  from fan_out_in_registration_order [of ?b ?e, THEN conjunct1] obtain k where
    k: "k \<le> length (listeners ?b) \<and>
      invoked (fst (emitDashboard ?e ?b))
        = invoked ?b @ map (\<lambda>l. (fn_ref l, ?e)) (take k (listeners ?b)) \<and>
      (snd (emitDashboard ?e ?b) = None \<longrightarrow> k = length (listeners ?b)) \<and>
      (\<forall>x. snd (emitDashboard ?e ?b) = Some x \<longrightarrow> 0 < k) \<and>
      (\<forall>i<k. snd (call (listeners ?b ! i) ?e
                   (sockets (fst (emitDashboard ?e (?b\<lparr>listeners := take i (listeners ?b)\<rparr>)))))
               = (if Suc i < k then None else snd (emitDashboard ?e ?b)))"
    ..
  have "k = length (listeners ?b)"
    using k[THEN conjunct2, THEN conjunct2, THEN conjunct1] ret by (rule mp)
  with k[THEN conjunct2, THEN conjunct1]
  have first: "invoked (fst (emitDashboard ?e ?b)) = [(2, ?e), (4, ?e)]" by (simp add: b)
  let ?c = "fst (connection serialisable 7 (on (failing_listener 1) (open_socket 7 (dashboardEvents :: payload state))))"
  have acc3: "list_all (\<lambda>e. serialisable (data e))
      (retained (on (failing_listener 1) (open_socket 7 (dashboardEvents :: payload state))))"
    by (simp add: on_def open_socket_def dashboardEvents_def)
  have c: "listeners ?c = [failing_listener 1, \<lparr>fn_ref = 2, call = handler serialisable 7\<rparr>]"
      "invoked ?c = []"
    unfolding connection_accepted[OF acc3] by (simp_all add: on_def open_socket_def dashboardEvents_def)
  have thr: "snd (emitDashboard ?e ?c) = Some (Thrown ''subscriber failed'')"
  proof -
    obtain u where u: "emitDashboard ?e ?c = emit (listeners ?c) ?e u"
      using emitDashboard_emit by blast
    show ?thesis unfolding u c by (simp add: emit_step failing_listener_def)
  qed
  from fan_out_in_registration_order [of ?c ?e, THEN conjunct1] obtain j where
    j: "j \<le> length (listeners ?c) \<and>
      invoked (fst (emitDashboard ?e ?c))
        = invoked ?c @ map (\<lambda>l. (fn_ref l, ?e)) (take j (listeners ?c)) \<and>
      (snd (emitDashboard ?e ?c) = None \<longrightarrow> j = length (listeners ?c)) \<and>
      (\<forall>x. snd (emitDashboard ?e ?c) = Some x \<longrightarrow> 0 < j) \<and>
      (\<forall>i<j. snd (call (listeners ?c ! i) ?e
                   (sockets (fst (emitDashboard ?e (?c\<lparr>listeners := take i (listeners ?c)\<rparr>)))))
               = (if Suc i < j then None else snd (emitDashboard ?e ?c)))"
    ..
  have pos: "0 < j"
    using j[THEN conjunct2, THEN conjunct2, THEN conjunct2, THEN conjunct1] thr by blast
  note at0 = j[THEN conjunct2, THEN conjunct2, THEN conjunct2, THEN conjunct2, rule_format, OF pos,
      unfolded c]
  have "\<not> Suc 0 < j"
    using at0 by (auto simp add: failing_listener_def split: if_splits)
  with pos have "j = 1" by simp
  with j[THEN conjunct2, THEN conjunct1, unfolded c]
  have second: "invoked (fst (emitDashboard ?e ?c)) = [(1, ?e)]"
    by (simp add: failing_listener_def)
  from first second show ?thesis by simp
qed

text \<open>
  C7. When no function object is registered twice, unsubscribing a handle a second time
  changes nothing, unsubscribing a handle that is not registered leaves the state as it
  is, the retained history is never touched, and a second close event of a connection
  changes nothing either. \<open>off\<close> is total: it raises no error.
\<close>

theorem unsubscribe_idempotent:
  assumes "distinct (map fn_ref (listeners s))"
  shows "off h (off h s) = off h s
       \<and> (h \<notin> set (map fn_ref (listeners s)) \<longrightarrow> off h s = s)
       \<and> retained (off h s) = retained s
       \<and> close c (close c s) = close c s"
proof -
  have "h \<notin> set (map fn_ref (removeListener h (listeners s)))"
    using assms by (rule removeListener_removes)
  then have "removeListener h (removeListener h (listeners s)) = removeListener h (listeners s)"
    by (rule removeListener_absent)
  then have c1: "off h (off h s) = off h s" by (simp add: off_def)
  have c2: "h \<notin> set (map fn_ref (listeners s)) \<longrightarrow> off h s = s"
    by (simp add: off_def removeListener_absent)
  have c3: "retained (off h s) = retained s" by (simp add: off_def)
  let ?ks = "closeListeners (sockets s c)"
  have "\<forall>k\<in>set ?ks. k \<notin> set (map fn_ref (fold removeListener ?ks (listeners s)))"
    using fold_removeListener_removes[OF assms] by blast
  then have "fold removeListener ?ks (fold removeListener ?ks (listeners s)) = fold removeListener ?ks (listeners s)"
    by (rule fold_removeListener_absent)
  then have c4: "close c (close c s) = close c s" by (simp add: close_eq)
  from c1 c2 c3 c4 show ?thesis by blast
qed

theorem unsubscribe_idempotent_witness:
  "off 2 (off 2 (fst (connection serialisable 7 (open_socket 7 dashboardEvents))))
     = off 2 (fst (connection serialisable 7 (open_socket 7 dashboardEvents)))
   \<and> listeners (off 2 (fst (connection serialisable 7 (open_socket 7 dashboardEvents)))) = []
   \<and> off 5 (fst (connection serialisable 7 (open_socket 7 dashboardEvents)))
       = fst (connection serialisable 7 (open_socket 7 dashboardEvents))"
proof -
  let ?a = "fst (connection serialisable 7 (open_socket 7 (dashboardEvents :: payload state)))"
  have acc: "list_all (\<lambda>e. serialisable (data e)) (retained (open_socket 7 (dashboardEvents :: payload state)))"
    by (simp add: open_socket_def dashboardEvents_def)
  have ls: "listeners ?a = [\<lparr>fn_ref = 2, call = handler serialisable 7\<rparr>]"
    unfolding connection_accepted[OF acc] by (simp add: open_socket_def dashboardEvents_def)
  have d: "distinct (map fn_ref (listeners ?a))" by (simp add: ls)
  have n: "5 \<notin> set (map fn_ref (listeners ?a))" by (simp add: ls)
  have e: "listeners (off 2 ?a) = []" by (simp add: off_def ls)
  from unsubscribe_idempotent [OF d, of 2 7] unsubscribe_idempotent [OF d, of 5 7] n e
  show ?thesis by simp
qed

text \<open>
  C8. After the close event of connection \<open>c\<close>, whatever is published and whichever
  other connections open or close, nothing more is sent to \<open>c\<close>, the handlers of
  \<open>c\<close> are no longer registered, and none of them is invoked again.
\<close>

theorem no_delivery_after_close:
  assumes "server_inv accepts s" and "Connect c \<notin> set ts"
  shows "sent (sockets (run accepts ts (close c s)) c) = sent (sockets s c)
       \<and> (\<forall>h\<in>set (closeListeners (sockets s c)).
             h \<notin> set (map fn_ref (listeners (close c s)))
             \<and> h \<notin> fst ` set (new_invocations (close c s) (run accepts ts (close c s))))"
proof -
  let ?s' = "close c s"
  have inv': "server_inv accepts ?s'" using assms(1) by (rule server_inv_close)
  then have hs: "\<forall>l\<in>set (listeners ?s'). \<exists>w. call l = handler accepts w"
    by (simp add: server_inv_def)
  have cl: "readyState (sockets ?s' c) \<noteq> OPEN" by (simp add: close_eq)
  have "sent (sockets (run accepts ts ?s') c) = sent (sockets ?s' c)"
    using hs cl assms(2) by (rule closed_run)
  then have c1: "sent (sockets (run accepts ts ?s') c) = sent (sockets s c)"
    by (simp add: close_eq)
  have c2: "h \<notin> set (map fn_ref (listeners ?s'))
          \<and> h \<notin> fst ` set (new_invocations ?s' (run accepts ts ?s'))"
    if h: "h \<in> set (closeListeners (sockets s c))" for h
  proof -
    have d: "distinct (map fn_ref (listeners s))" using assms(1) by (simp add: server_inv_def)
    have gone: "h \<notin> set (map fn_ref (listeners ?s'))"
      using fold_removeListener_removes[OF d h] by (simp add: close_eq)
    have "h < nextRef s" using assms(1) h by (simp add: server_inv_def)
    then have "h < nextRef ?s'" by (simp add: close_eq)
    from unsubscribed_run[OF this gone, of accepts ts] obtain new where
      "invoked (run accepts ts ?s') = invoked ?s' @ new" "h \<notin> fst ` set new" by blast
    then have "h \<notin> fst ` set (new_invocations ?s' (run accepts ts ?s'))"
      by (simp add: new_invocations_def)
    with gone show ?thesis by simp
  qed
  from c1 c2 show ?thesis by blast
qed

theorem no_delivery_after_close_witness:
  "sent (sockets (run serialisable [Publish (msg_event ''e2''), Connect 8, Publish (msg_event ''e3'')]
           (close 7 (fst (emitDashboard (msg_event ''e1'')
              (fst (connection serialisable 7 (open_socket 7 dashboardEvents))))))) 7)
     = [history_msg [], event_msg (msg_event ''e1'')]"
proof -
  let ?a = "fst (connection serialisable 7 (open_socket 7 (dashboardEvents :: payload state)))"
  let ?b = "fst (emitDashboard (msg_event ''e1'') ?a)"
  have acc: "list_all (\<lambda>e. serialisable (data e)) (retained (open_socket 7 (dashboardEvents :: payload state)))"
    by (simp add: open_socket_def dashboardEvents_def)
  have "server_inv serialisable (open_socket 7 (dashboardEvents :: payload state))"
    by (simp add: server_inv_def open_socket_def dashboardEvents_def)
  then have ia: "server_inv serialisable ?a" by (rule server_inv_connection)
  then have 1: "server_inv serialisable ?b" by (rule server_inv_publish)
  have 2: "Connect 7 \<notin> set [Publish (msg_event ''e2''), Connect 8, Publish (msg_event ''e3'')]"
    by simp
  have sa: "sent (sockets ?a 7) = [history_msg []]" "readyState (sockets ?a 7) = OPEN"
    unfolding connection_accepted[OF acc] by (simp_all add: open_socket_def dashboardEvents_def)
  have "subscribed serialisable 2 7 ?a"
    unfolding connection_accepted[OF acc]
    by (simp add: subscribed_def open_socket_def dashboardEvents_def)
  moreover have "serialisable (data (msg_event ''e1''))" by (simp add: msg_event_def)
  ultimately have "sent (sockets ?b 7) = sent (sockets ?a 7) @ [event_msg (msg_event ''e1'')]"
    by (rule subscribed_publish(2))
  then have 3: "sent (sockets ?b 7) = [history_msg [], event_msg (msg_event ''e1'')]"
    by (simp add: sa)
  from no_delivery_after_close [OF 1 2] show ?thesis by (simp only: 3)
qed

text \<open>
  C10. For every chat id \<open>c\<close> that is a safe integer, the JID built from \<open>c\<close> is
  read back as \<open>c\<close>; and every string that does not end with \<^verbatim>\<open>@telegram\<close> is
  read as \<^verbatim>\<open>null\<close>.
\<close>

theorem jid_roundtrip:
  "(isSafeInteger c \<longrightarrow> jidToTelegramChatId (telegramChatIdToJid c) = Some c)
   \<and> (\<not> endsWith jid ''@telegram'' \<longrightarrow> jidToTelegramChatId jid = None)"
proof -
  have e: "endsWith (number_toString c @ ''@telegram'') ''@telegram''"
    by (rule endsWith_append)
  have r: "replace (number_toString c @ ''@telegram'') ''@telegram'' [] = number_toString c"
    using number_toString_no_at by (rule replace_suffix)
  have "jidToTelegramChatId (telegramChatIdToJid c) = Some c"
    unfolding jidToTelegramChatId_def telegramChatIdToJid_def
    by (simp only: e r parseInt_number_toString not_True_eq_False if_False option.case)
  moreover have "\<not> endsWith jid ''@telegram'' \<longrightarrow> jidToTelegramChatId jid = None"
  proof
    assume "\<not> endsWith jid ''@telegram''"
    then show "jidToTelegramChatId jid = None"
      unfolding jidToTelegramChatId_def by (rule if_P)
  qed
  ultimately show ?thesis by blast
qed

theorem jid_roundtrip_witness:
  "jidToTelegramChatId (telegramChatIdToJid (- 1001234567890)) = Some (- 1001234567890)
   \<and> jidToTelegramChatId ''120363@g.us'' = None"
proof -
  have 1: "isSafeInteger (- 1001234567890)" by (simp add: isSafeInteger_def)
  have 2: "\<not> endsWith ''120363@g.us'' ''@telegram''" by (simp add: endsWith_def)
  from jid_roundtrip [of "- 1001234567890" "''120363@g.us''"] 1 2
  show ?thesis by blast
qed

end
